theory Spec2Isabelle
  imports Main "HOL-Library.Sublist"
begin

section \<open>The connection factory (\<open>driver\<close>)\<close>

text \<open>
  \<open>driver\<close> takes four optional strings, each defaulting to an environment variable, and
  hands \<open>neo4j.driver\<close> the URI, the basic-auth pair and a configuration object. A value of
  type \<open>string | undefined\<close> is a \<open>string option\<close> (\<open>None\<close> is \<open>undefined\<close>); a default
  parameter value is taken exactly when the argument is \<open>undefined\<close>.
\<close>

record process_env =
  NEO4J_URI :: "string option"
  NEO4J_USER :: "string option"
  NEO4J_PASSWORD :: "string option"
  NEO4J_ENCRYPTED :: "string option"

datatype encryption = ENCRYPTION_ON | ENCRYPTION_OFF

record driver_config =
  disableLosslessIntegers :: bool
  encrypted :: encryption

record driver_handle =
  handle_uri :: "string option"
  handle_auth :: "string option \<times> string option"
  handle_config :: driver_config

definition default_param :: "'a option \<Rightarrow> 'a option \<Rightarrow> 'a option" where
  "default_param arg dflt = (case arg of None \<Rightarrow> dflt | Some v \<Rightarrow> Some v)"

text \<open>JavaScript's \<open>!!s\<close> on \<open>string | undefined\<close>: false for \<open>undefined\<close> and for the empty string.\<close>

definition truthy :: "string option \<Rightarrow> bool" where
  "truthy s = (case s of None \<Rightarrow> False | Some v \<Rightarrow> v \<noteq> [])"

definition isEncrypted :: "string option \<Rightarrow> bool" where
  "isEncrypted neo4jEncryptedConnection =
     (truthy neo4jEncryptedConnection \<and> neo4jEncryptedConnection \<noteq> Some ''false'')"

definition driver ::
  "process_env \<Rightarrow> string option \<Rightarrow> string option \<Rightarrow> string option \<Rightarrow> string option
     \<Rightarrow> driver_handle" where
  "driver env uri_arg user_arg password_arg encrypted_arg =
     (let neo4jURI = default_param uri_arg (NEO4J_URI env);
          neo4jUser = default_param user_arg (NEO4J_USER env);
          neo4jPassword = default_param password_arg (NEO4J_PASSWORD env);
          neo4jEncryptedConnection = default_param encrypted_arg (NEO4J_ENCRYPTED env)
      in \<lparr> handle_uri = neo4jURI,
           handle_auth = (neo4jUser, neo4jPassword),
           handle_config =
             \<lparr> disableLosslessIntegers = True,
               encrypted = (if isEncrypted neo4jEncryptedConnection
                            then ENCRYPTION_ON else ENCRYPTION_OFF) \<rparr> \<rparr>)"


section \<open>The property graph\<close>

text \<open>
  A \<open>User\<close> node carries the twelve properties the \<open>MERGE\<close> of \<open>upsertUser\<close> writes. The
  identity key and the two counters are integers (the queries pass them through
  \<open>toInteger\<close>); a text property that is \<open>null\<close> is not stored, which is \<open>None\<close> here;
  \<open>time_created\<close> is the ISO-8601 text the profile carries, which stands for the
  \<open>datetime\<close> value the store keeps. The inbound \<open>SocialGraphUserProfile\<close> (declared in
  another module) has these fields, so one record serves both.
\<close>

record profile =
  user_id :: int
  name :: "string option"
  photo_url :: "string option"
  username :: "string option"
  twitter :: "string option"
  bio :: "string option"
  displayname :: "string option"
  instagram :: "string option"
  num_followers :: int
  num_following :: int
  time_created :: string
  is_blocked_by_network :: bool

datatype rel_type = FOLLOWS | INVITED_BY_USER

text \<open>
  The store gives every node an identity of its own, apart from its properties: two
  nodes may carry the same \<open>user_id\<close>. Nothing here deletes a node, so the identity of a
  node is its position in the list of nodes, and a relationship names its two ends by
  position. Parallel relationships are possible in the store, so relationships are a
  list, not a set.
\<close>

record rel =
  rel_from :: nat
  rel_label :: rel_type
  rel_to :: nat

record graph =
  nodes :: "profile list"
  rels :: "rel list"

definition empty_graph :: graph where
  "empty_graph = \<lparr> nodes = [], rels = [] \<rparr>"

text \<open>What a result cursor holds: one row per record the query returns.\<close>

datatype row = RNode profile | RRel rel | RCount nat

type_synonym cursor = "row list"

datatype error = QueryError


section \<open>The clauses the queries are made of\<close>

text \<open>
  \<open>toInteger\<close> on a number that is an integer already is that integer. On a string (the
  read operations take \<open>userId: string\<close>) it is the store's parser, which yields \<open>null\<close> for
  text that is no number: the read operations take it as a parameter
  \<open>toInteger :: string \<Rightarrow> int option\<close>, and what is proved of them holds for every parser.
\<close>

definition toInteger_number :: "int \<Rightarrow> int option" where
  "toInteger_number n = Some n"

text \<open>The property map \<open>{user_id: k}\<close> of a node pattern; a \<open>null\<close> key matches no node.\<close>

definition has_user_id :: "int option \<Rightarrow> profile \<Rightarrow> bool" where
  "has_user_id k n = (k = Some (user_id n))"

text \<open>\<open>MATCH (x:User {user_id: k})\<close>: the nodes with that key, one row each.\<close>

definition match_user :: "graph \<Rightarrow> int option \<Rightarrow> nat list" where
  "match_user g k = filter (\<lambda>i. has_user_id k (nodes g ! i)) [0..<length (nodes g)]"

text \<open>
  \<open>MATCH (a:User P)-[op:T]->(b:User Q)\<close>: the relationships of type \<open>T\<close> whose start node
  satisfies \<open>P\<close> and whose end node satisfies \<open>Q\<close>, one row each.
\<close>

definition match_rel ::
  "graph \<Rightarrow> (profile \<Rightarrow> bool) \<Rightarrow> rel_type \<Rightarrow> (profile \<Rightarrow> bool) \<Rightarrow> rel list" where
  "match_rel g P t Q =
     filter (\<lambda>r. rel_label r = t \<and> rel_from r < length (nodes g) \<and> rel_to r < length (nodes g)
                 \<and> P (nodes g ! rel_from r) \<and> Q (nodes g ! rel_to r)) (rels g)"

definition any_user :: "profile \<Rightarrow> bool" where
  "any_user n = True"

text \<open>
  \<open>MERGE (a)-[op:T]->(b)\<close> for bound nodes \<open>a\<close> and \<open>b\<close>: every existing relationship of
  that type from \<open>a\<close> to \<open>b\<close> is a row; when there is none, one is created and is the row.
\<close>

definition merge_rel :: "graph \<Rightarrow> nat \<Rightarrow> rel_type \<Rightarrow> nat \<Rightarrow> graph \<times> rel list" where
  "merge_rel g a t b =
     (let op = \<lparr> rel_from = a, rel_label = t, rel_to = b \<rparr>;
          found = filter (\<lambda>r. r = op) (rels g)
      in if found \<noteq> [] then (g, found)
         else (g\<lparr> rels := rels g @ [op] \<rparr>, [op]))"

text \<open>The \<open>MERGE\<close> runs once for each row of the preceding \<open>MATCH\<close> clauses, in turn.\<close>

fun merge_rows :: "rel_type \<Rightarrow> (nat \<times> nat) list \<Rightarrow> graph \<Rightarrow> graph \<times> rel list" where
  "merge_rows t [] g = (g, [])"
| "merge_rows t ((a, b) # rest) g =
     (let (g1, ops1) = merge_rel g a t b;
          (g2, ops2) = merge_rows t rest g1
      in (g2, ops1 @ ops2))"

text \<open>
  \<open>SKIP s LIMIT l\<close>. The store refuses a negative bound with an error; the layer passes
  whatever number it was given. \<open>ORDER BY\<close> is \<open>sort_key\<close> below: among rows with equal keys
  the store promises no order, so order is only spoken of where the keys differ.
\<close>

definition skip_limit :: "int \<Rightarrow> int \<Rightarrow> 'a list \<Rightarrow> error + 'a list" where
  "skip_limit s l xs =
     (if s < 0 \<or> l < 0 then Inl QueryError else Inr (take (nat l) (drop (nat s) xs)))"


section \<open>The write operations\<close>

text \<open>
  \<open>upsertUser\<close>: the parameters are the profile with \<open>bio\<close> replaced by \<open>sanitize(user.bio)\<close>
  (\<open>sanitize\<close> lives in another module and is a parameter here). The \<open>MERGE\<close> looks for a
  node with the key; only \<open>ON CREATE\<close> are the other eleven properties set. The query has
  no \<open>RETURN\<close>, so its cursor has no rows.
\<close>

definition upsertUser ::
  "(string option \<Rightarrow> string option) \<Rightarrow> graph \<Rightarrow> profile \<Rightarrow> graph \<times> cursor" where
  "upsertUser sanitize g user =
     (let p = user\<lparr> bio := sanitize (bio user) \<rparr>;
          k = toInteger_number (user_id p)
      in if match_user g k \<noteq> [] then (g, [])
         else (g\<lparr> nodes := nodes g @
                  [\<lparr> user_id = the k,
                     name = name p,
                     photo_url = photo_url p,
                     username = username p,
                     twitter = twitter p,
                     bio = bio p,
                     displayname = displayname p,
                     instagram = instagram p,
                     num_followers = num_followers p,
                     num_following = num_following p,
                     time_created = time_created p,
                     is_blocked_by_network = is_blocked_by_network p \<rparr>] \<rparr>, []))"

text \<open>
  \<open>upsertFollowsRelationship\<close>: two \<open>MATCH\<close> clauses bind \<open>userA\<close> (the follower) and \<open>userB\<close>;
  their rows are all pairs. The relationship goes from \<open>userA\<close> to \<open>userB\<close>; \<open>RETURN op\<close>.
\<close>

definition upsertFollowsRelationship :: "graph \<Rightarrow> int \<Rightarrow> int \<Rightarrow> graph \<times> cursor" where
  "upsertFollowsRelationship g follower_id followed_id =
     (let rows = List.product (match_user g (toInteger_number follower_id))
                              (match_user g (toInteger_number followed_id));
          (g', ops) = merge_rows FOLLOWS rows g
      in (g', map RRel ops))"

text \<open>
  \<open>upsertInvitedByUserRelationship\<close>: \<open>userA\<close> is the inviter, \<open>userB\<close> the invited user, and
  the relationship goes from \<open>userB\<close> to \<open>userA\<close>.
\<close>

definition upsertInvitedByUserRelationship :: "graph \<Rightarrow> int \<Rightarrow> int \<Rightarrow> graph \<times> cursor" where
  "upsertInvitedByUserRelationship g invited_by_user_profile_id invited_id =
     (let rows = List.product (match_user g (toInteger_number invited_by_user_profile_id))
                              (match_user g (toInteger_number invited_id));
          (g', ops) = merge_rows INVITED_BY_USER (map (\<lambda>(userA, userB). (userB, userA)) rows) g
      in (g', map RRel ops))"


section \<open>The read operations\<close>

record list_options =
  limit :: "int option"
  skip :: "int option"

definition no_options :: list_options where
  "no_options = \<lparr> limit = None, skip = None \<rparr>"

definition limit_of :: "list_options \<Rightarrow> int" where
  "limit_of opts = (case limit opts of None \<Rightarrow> 1000 | Some l \<Rightarrow> l)"

definition skip_of :: "list_options \<Rightarrow> int" where
  "skip_of opts = (case skip opts of None \<Rightarrow> 0 | Some s \<Rightarrow> s)"

definition getUserFollowersById ::
  "(string \<Rightarrow> int option) \<Rightarrow> graph \<Rightarrow> string \<Rightarrow> list_options \<Rightarrow> error + cursor" where
  "getUserFollowersById toInteger g userId opts =
     (let matched = match_rel g any_user FOLLOWS (has_user_id (toInteger userId));
          ordered = sort_key (\<lambda>r. user_id (nodes g ! rel_from r)) matched
      in case skip_limit (skip_of opts) (limit_of opts) ordered of
           Inl e \<Rightarrow> Inl e
         | Inr page \<Rightarrow> Inr (map (\<lambda>r. RNode (nodes g ! rel_from r)) page))"

definition getFollowingUsersById ::
  "(string \<Rightarrow> int option) \<Rightarrow> graph \<Rightarrow> string \<Rightarrow> list_options \<Rightarrow> error + cursor" where
  "getFollowingUsersById toInteger g userId opts =
     (let matched = match_rel g (has_user_id (toInteger userId)) FOLLOWS any_user;
          ordered = sort_key (\<lambda>r. user_id (nodes g ! rel_to r)) matched
      in case skip_limit (skip_of opts) (limit_of opts) ordered of
           Inl e \<Rightarrow> Inl e
         | Inr page \<Rightarrow> Inr (map (\<lambda>r. RNode (nodes g ! rel_to r)) page))"

definition getUsersInvitedById ::
  "(string \<Rightarrow> int option) \<Rightarrow> graph \<Rightarrow> string \<Rightarrow> list_options \<Rightarrow> error + cursor" where
  "getUsersInvitedById toInteger g userId opts =
     (let matched = match_rel g any_user INVITED_BY_USER (has_user_id (toInteger userId));
          ordered = sort_key (\<lambda>r. user_id (nodes g ! rel_from r)) matched
      in case skip_limit (skip_of opts) (limit_of opts) ordered of
           Inl e \<Rightarrow> Inl e
         | Inr page \<Rightarrow> Inr (map (\<lambda>r. RNode (nodes g ! rel_from r)) page))"

text \<open>\<open>RETURN count(op)\<close> is one row, also when nothing matched.\<close>

definition getNumFollowersById :: "(string \<Rightarrow> int option) \<Rightarrow> graph \<Rightarrow> string \<Rightarrow> cursor" where
  "getNumFollowersById toInteger g userId =
     [RCount (length (match_rel g any_user FOLLOWS (has_user_id (toInteger userId))))]"

definition getNumUsersInvitedById :: "(string \<Rightarrow> int option) \<Rightarrow> graph \<Rightarrow> string \<Rightarrow> cursor" where
  "getNumUsersInvitedById toInteger g userId =
     [RCount (length (match_rel g any_user INVITED_BY_USER (has_user_id (toInteger userId))))]"

definition getNumInvitesForUserById :: "(string \<Rightarrow> int option) \<Rightarrow> graph \<Rightarrow> string \<Rightarrow> cursor" where
  "getNumInvitesForUserById toInteger g userId =
     [RCount (length (match_rel g (has_user_id (toInteger userId)) INVITED_BY_USER any_user))]"


section \<open>Sequences of writes, and what they keep true\<close>

text \<open>The three write operations of the layer, as data, and a run of them in order.\<close>

datatype write_op =
    UpsertUser profile
  | UpsertFollows int int
  | UpsertInvitedByUser int int

fun apply_op :: "(string option \<Rightarrow> string option) \<Rightarrow> graph \<Rightarrow> write_op \<Rightarrow> graph" where
  "apply_op sanitize g (UpsertUser p) = fst (upsertUser sanitize g p)"
| "apply_op sanitize g (UpsertFollows follower_id followed_id) =
     fst (upsertFollowsRelationship g follower_id followed_id)"
| "apply_op sanitize g (UpsertInvitedByUser inviter_id invited_id) =
     fst (upsertInvitedByUserRelationship g inviter_id invited_id)"

definition run_ops :: "(string option \<Rightarrow> string option) \<Rightarrow> graph \<Rightarrow> write_op list \<Rightarrow> graph" where
  "run_ops sanitize g ops = foldl (apply_op sanitize) g ops"

text \<open>
  The shape of a graph that only these writes have touched: one node per \<open>user_id\<close>, no
  parallel relationship, and both ends of every relationship are nodes.
\<close>

definition graph_inv :: "graph \<Rightarrow> bool" where
  "graph_inv g =
     (distinct (map user_id (nodes g)) \<and> distinct (rels g)
      \<and> list_all (\<lambda>r. rel_from r < length (nodes g) \<and> rel_to r < length (nodes g)) (rels g))"

definition user_exists :: "graph \<Rightarrow> int \<Rightarrow> bool" where
  "user_exists g k = (k \<in> set (map user_id (nodes g)))"

text \<open>The profiles of the \<open>upsertUser\<close> calls of a run, in call order.\<close>

fun upserted_users :: "write_op list \<Rightarrow> profile list" where
  "upserted_users [] = []"
| "upserted_users (UpsertUser p # ops) = p # upserted_users ops"
| "upserted_users (_ # ops) = upserted_users ops"


section \<open>The queries as issued\<close>

text \<open>
  Every operation hands \<open>tx.run\<close> a query text and a parameter object. The text is a
  template literal: its lines are joined by newlines, the first line is empty and the
  last is the indentation before the closing backtick. The three list operations
  interpolate \<open>${skip}\<close> and \<open>${limit}\<close> into the text; the conversion of a number to text
  there is the parameter \<open>str\<close>.
\<close>

datatype param = PNull | PString string | PNumber int | PBoolean bool

record query =
  query_text :: string
  query_params :: "(string \<times> param) list"

fun join_lines :: "string list \<Rightarrow> string" where
  "join_lines [] = []"
| "join_lines [l] = l"
| "join_lines (l # ls) = l @ CHR 0x0A # join_lines ls"

definition param_of_text :: "string option \<Rightarrow> param" where
  "param_of_text t = (case t of None \<Rightarrow> PNull | Some s \<Rightarrow> PString s)"

definition upsertUser_text :: string where
  "upsertUser_text = join_lines
     ['''',
      ''      MERGE (user:User { user_id: toInteger($user_id) })'',
      ''        ON CREATE SET user.name = $name,'',
      ''          user.photo_url = $photo_url,'',
      ''          user.username = $username,'',
      ''          user.twitter = $twitter,'',
      ''          user.bio = $bio,'',
      ''          user.displayname = $displayname,'',
      ''          user.instagram = $instagram,'',
      ''          user.num_followers = toInteger($num_followers),'',
      ''          user.num_following = toInteger($num_following),'',
      ''          user.time_created = datetime($time_created),'',
      ''          user.is_blocked_by_network = $is_blocked_by_network;'',
      ''    '']"

definition upsertUser_query :: "(string option \<Rightarrow> string option) \<Rightarrow> profile \<Rightarrow> query" where
  "upsertUser_query sanitize user =
     \<lparr> query_text = upsertUser_text,
       query_params =
         [(''user_id'', PNumber (user_id user)),
          (''name'', param_of_text (name user)),
          (''photo_url'', param_of_text (photo_url user)),
          (''username'', param_of_text (username user)),
          (''twitter'', param_of_text (twitter user)),
          (''bio'', param_of_text (sanitize (bio user))),
          (''displayname'', param_of_text (displayname user)),
          (''instagram'', param_of_text (instagram user)),
          (''num_followers'', PNumber (num_followers user)),
          (''num_following'', PNumber (num_following user)),
          (''time_created'', PString (time_created user)),
          (''is_blocked_by_network'', PBoolean (is_blocked_by_network user))] \<rparr>"

definition upsertFollowsRelationship_query :: "int \<Rightarrow> int \<Rightarrow> query" where
  "upsertFollowsRelationship_query follower_id followed_id =
     \<lparr> query_text = join_lines
         ['''',
          ''      MATCH (userA:User {user_id: toInteger($follower_id)})'',
          ''      MATCH (userB:User {user_id: toInteger($user_id)})'',
          ''      MERGE (userA)-[op:FOLLOWS]->(userB)'',
          ''      RETURN op;'',
          ''    ''],
       query_params = [(''follower_id'', PNumber follower_id), (''user_id'', PNumber followed_id)] \<rparr>"

definition upsertInvitedByUserRelationship_query :: "int \<Rightarrow> int \<Rightarrow> query" where
  "upsertInvitedByUserRelationship_query invited_by_user_profile_id invited_id =
     \<lparr> query_text = join_lines
         ['''',
          ''      MATCH (userA:User {user_id: toInteger($invited_by_user_profile_id)})'',
          ''      MATCH (userB:User {user_id: toInteger($user_id)})'',
          ''      MERGE (userB)-[op:INVITED_BY_USER]->(userA)'',
          ''      RETURN op;'',
          ''    ''],
       query_params = [(''invited_by_user_profile_id'', PNumber invited_by_user_profile_id),
                       (''user_id'', PNumber invited_id)] \<rparr>"

definition getUserFollowersById_query :: "(int \<Rightarrow> string) \<Rightarrow> string \<Rightarrow> list_options \<Rightarrow> query" where
  "getUserFollowersById_query str userId opts =
     \<lparr> query_text = join_lines
         ['''',
          ''      MATCH (follower:User)-[op:FOLLOWS]->(u:User { user_id: toInteger($userId) })'',
          ''      RETURN follower'',
          ''      ORDER BY follower.user_id'',
          ''      SKIP '' @ str (skip_of opts),
          ''      LIMIT '' @ str (limit_of opts),
          ''    ''],
       query_params = [(''userId'', PString userId)] \<rparr>"

definition getFollowingUsersById_query :: "(int \<Rightarrow> string) \<Rightarrow> string \<Rightarrow> list_options \<Rightarrow> query" where
  "getFollowingUsersById_query str userId opts =
     \<lparr> query_text = join_lines
         ['''',
          ''      MATCH (u:User { user_id: toInteger($userId) })-[op:FOLLOWS]->(following:User)'',
          ''      RETURN following'',
          ''      ORDER BY following.user_id'',
          ''      SKIP '' @ str (skip_of opts),
          ''      LIMIT '' @ str (limit_of opts),
          ''    ''],
       query_params = [(''userId'', PString userId)] \<rparr>"

definition getUsersInvitedById_query :: "(int \<Rightarrow> string) \<Rightarrow> string \<Rightarrow> list_options \<Rightarrow> query" where
  "getUsersInvitedById_query str userId opts =
     \<lparr> query_text = join_lines
         ['''',
          ''      MATCH (user:User)-[op:INVITED_BY_USER]->(u:User { user_id: toInteger($userId) })'',
          ''      RETURN user'',
          ''      ORDER BY user.user_id'',
          ''      SKIP '' @ str (skip_of opts),
          ''      LIMIT '' @ str (limit_of opts),
          ''    ''],
       query_params = [(''userId'', PString userId)] \<rparr>"

text \<open>
  Decimal notation, which is what the template literal writes for an integer of
  magnitude below \<open>10\<^sup>2\<^sup>1\<close>; used to instantiate \<open>str\<close>.
\<close>

fun nat_decimal :: "nat \<Rightarrow> string" where
  "nat_decimal n =
     (if n < 10 then [''0123456789'' ! n]
      else nat_decimal (n div 10) @ [''0123456789'' ! (n mod 10)])"

definition decimal :: "int \<Rightarrow> string" where
  "decimal i = (if i < 0 then CHR ''-'' # nat_decimal (nat (- i)) else nat_decimal (nat i))"


section \<open>Notions the properties are stated with\<close>

text \<open>
  The nodes that follow the user \<open>userId\<close> names: those from which a \<open>FOLLOWS\<close>
  relationship leads to a node with that \<open>user_id\<close>.
\<close>

definition followers_of :: "(string \<Rightarrow> int option) \<Rightarrow> graph \<Rightarrow> string \<Rightarrow> profile set" where
  "followers_of toInteger g userId =
     (\<lambda>r. nodes g ! rel_from r) `
       {r \<in> set (rels g). rel_label r = FOLLOWS
          \<and> rel_from r < length (nodes g) \<and> rel_to r < length (nodes g)
          \<and> toInteger userId = Some (user_id (nodes g ! rel_to r))}"

text \<open>
  The rows \<open>getUserFollowersById\<close> pages through: the matched relationships in the
  \<open>ORDER BY\<close> order, each as its start node.
\<close>

definition follower_rows :: "(string \<Rightarrow> int option) \<Rightarrow> graph \<Rightarrow> string \<Rightarrow> profile list" where
  "follower_rows toInteger g userId =
     map (\<lambda>r. nodes g ! rel_from r)
       (sort_key (\<lambda>r. user_id (nodes g ! rel_from r))
          (match_rel g any_user FOLLOWS (has_user_id (toInteger userId))))"


text \<open>
  The number of relationships of type \<open>t\<close> that leave (\<open>out_degree\<close>) or enter
  (\<open>in_degree\<close>) a node whose \<open>user_id\<close> is \<open>k\<close>.
\<close>

definition out_degree :: "graph \<Rightarrow> rel_type \<Rightarrow> int \<Rightarrow> nat" where
  "out_degree g t k =
     length (filter (\<lambda>r. rel_label r = t \<and> rel_from r < length (nodes g) \<and> rel_to r < length (nodes g)
                         \<and> user_id (nodes g ! rel_from r) = k) (rels g))"

definition in_degree :: "graph \<Rightarrow> rel_type \<Rightarrow> int \<Rightarrow> nat" where
  "in_degree g t k =
     length (filter (\<lambda>r. rel_label r = t \<and> rel_from r < length (nodes g) \<and> rel_to r < length (nodes g)
                         \<and> user_id (nodes g ! rel_to r) = k) (rels g))"

text \<open>The users whose inviter is the user with \<open>user_id\<close> \<open>k\<close>.\<close>

definition invited_by :: "graph \<Rightarrow> int \<Rightarrow> profile set" where
  "invited_by g k =
     (\<lambda>r. nodes g ! rel_from r) `
       {r \<in> set (rels g). rel_label r = INVITED_BY_USER
          \<and> rel_from r < length (nodes g) \<and> rel_to r < length (nodes g)
          \<and> user_id (nodes g ! rel_to r) = k}"

text \<open>
  The (inviter, invited) pairs of the \<open>upsertInvitedByUserRelationship\<close> calls of a run,
  and the convention that all calls for one invited user name one inviter.
\<close>

fun invitations :: "write_op list \<Rightarrow> (int \<times> int) list" where
  "invitations [] = []"
| "invitations (UpsertInvitedByUser inviter_id invited_id # ops) =
     (inviter_id, invited_id) # invitations ops"
| "invitations (_ # ops) = invitations ops"

definition one_inviter_each :: "write_op list \<Rightarrow> bool" where
  "one_inviter_each ops =
     list_all (\<lambda>(a, u). list_all (\<lambda>(a', u'). u = u' \<longrightarrow> a = a') (invitations ops))
       (invitations ops)"


section \<open>Concrete inputs\<close>

text \<open>
  A profile, a sanitizer and a parser to run the operations on. \<open>example_sanitize\<close> stands
  in for the sanitizer of the other module and \<open>example_toInteger\<close> for the store's
  \<open>toInteger\<close> on the strings used below; the theorems hold for every such function.
\<close>

definition example_user :: "int \<Rightarrow> profile" where
  "example_user k =
     \<lparr> user_id = k, name = Some ''Ada'', photo_url = None, username = Some ''ada'',
       twitter = None, bio = Some ''hi  there'', displayname = None, instagram = None,
       num_followers = 7, num_following = 3, time_created = ''2021-02-01T00:00:00Z'',
       is_blocked_by_network = False \<rparr>"

definition example_sanitize :: "string option \<Rightarrow> string option" where
  "example_sanitize b = map_option (filter (\<lambda>c. c \<noteq> CHR '' '')) b"

definition example_toInteger :: "string \<Rightarrow> int option" where
  "example_toInteger s =
     (if s = ''1'' then Some 1 else if s = ''2'' then Some 2 else if s = ''3'' then Some 3
      else if s = ''4'' then Some 4 else None)"

definition example_graph :: graph where
  "example_graph =
     run_ops example_sanitize empty_graph
       [UpsertUser (example_user 1), UpsertUser (example_user 2), UpsertUser (example_user 3)]"


text \<open>Four users; 3, 2 and 4 follow 1 (upserted in that order), and 1 invited 2 and 3.\<close>

definition example_social_ops :: "write_op list" where
  "example_social_ops =
     [UpsertUser (example_user 1), UpsertUser (example_user 2), UpsertUser (example_user 3),
      UpsertUser (example_user 4),
      UpsertFollows 3 1, UpsertFollows 2 1, UpsertFollows 4 1, UpsertFollows 1 2,
      UpsertInvitedByUser 1 2, UpsertInvitedByUser 1 3]"

definition example_social :: graph where
  "example_social = run_ops example_sanitize empty_graph example_social_ops"

text \<open>A run in which two calls name two inviters for user 3.\<close>

definition two_inviters_ops :: "write_op list" where
  "two_inviters_ops =
     [UpsertUser (example_user 1), UpsertUser (example_user 2), UpsertUser (example_user 3),
      UpsertInvitedByUser 1 3, UpsertInvitedByUser 2 3]"


section \<open>Connection encryption\<close>

lemma isEncrypted_iff:
  "isEncrypted s = (\<exists>v. s = Some v \<and> v \<noteq> [] \<and> v \<noteq> ''false'')"
  by (cases s) (auto simp: isEncrypted_def truthy_def)

text \<open>
  C4. The driver is configured with encryption on exactly when the effective setting (the
  argument, or the environment variable when the argument is absent) is present, is not
  the empty string and is not the string \<open>false\<close>; in every other case encryption is off.
\<close>

theorem driver_encryption:
  "((encrypted (handle_config (driver env uri usr pw arg)) = ENCRYPTION_ON) =
      (\<exists>v. default_param arg (NEO4J_ENCRYPTED env) = Some v \<and> v \<noteq> [] \<and> v \<noteq> ''false''))
   \<and> ((encrypted (handle_config (driver env uri usr pw arg)) = ENCRYPTION_OFF) =
      (default_param arg (NEO4J_ENCRYPTED env) = None
       \<or> default_param arg (NEO4J_ENCRYPTED env) = Some []
       \<or> default_param arg (NEO4J_ENCRYPTED env) = Some ''false''))
   \<and> default_param (Some s) (NEO4J_ENCRYPTED env) = Some s
   \<and> default_param None (NEO4J_ENCRYPTED env) = NEO4J_ENCRYPTED env"
proof -
  let ?eff = "default_param arg (NEO4J_ENCRYPTED env)"
  have c: "encrypted (handle_config (driver env uri usr pw arg)) =
             (if isEncrypted ?eff then ENCRYPTION_ON else ENCRYPTION_OFF)"
    by (simp add: driver_def Let_def)
  have on: "(encrypted (handle_config (driver env uri usr pw arg)) = ENCRYPTION_ON) =
     (\<exists>v. ?eff = Some v \<and> v \<noteq> [] \<and> v \<noteq> ''false'')"
    by (simp add: c isEncrypted_iff)
  have off: "(encrypted (handle_config (driver env uri usr pw arg)) = ENCRYPTION_OFF) =
     (?eff = None \<or> ?eff = Some [] \<or> ?eff = Some ''false'')"
    by (cases ?eff) (auto simp: c isEncrypted_iff)
  have d1: "default_param (Some s) (NEO4J_ENCRYPTED env) = Some s"
    by (simp add: default_param_def)
  have d2: "default_param None (NEO4J_ENCRYPTED env) = NEO4J_ENCRYPTED env"
    by (simp add: default_param_def)
  show ?thesis using on off d1 d2 by blast
qed


section \<open>Matching nodes\<close>

lemma match_user_bound: "i \<in> set (match_user g k) \<Longrightarrow> i < length (nodes g)"
  by (simp add: match_user_def)

lemma match_user_key: "i \<in> set (match_user g k) \<Longrightarrow> k = Some (user_id (nodes g ! i))"
  by (simp add: match_user_def has_user_id_def)

lemma match_user_empty_iff: "(match_user g (Some k) = []) = (\<not> user_exists g k)"
proof -
  have a: "(match_user g (Some k) = []) = (\<forall>i<length (nodes g). user_id (nodes g ! i) \<noteq> k)"
    unfolding match_user_def has_user_id_def filter_empty_conv by auto
  have b: "user_exists g k = (\<exists>i<length (nodes g). user_id (nodes g ! i) = k)"
    unfolding user_exists_def in_set_conv_nth by auto
  show ?thesis unfolding a b by blast
qed

lemma match_user_None: "match_user g None = []"
  by (simp add: match_user_def has_user_id_def)

lemma distinct_all_equal:
  assumes "distinct xs" and "\<And>x y. x \<in> set xs \<Longrightarrow> y \<in> set xs \<Longrightarrow> x = y"
  shows "length xs \<le> 1"
proof (cases xs)
  case Nil then show ?thesis by simp
next
  case (Cons x ys)
  show ?thesis
  proof (cases ys)
    case Nil then show ?thesis using Cons by simp
  next
    case (Cons y zs)
    have "x = y" using assms(2)[of x y] \<open>xs = x # ys\<close> Cons by simp
    then show ?thesis using assms(1) \<open>xs = x # ys\<close> Cons by simp
  qed
qed

lemma match_user_unique:
  assumes d: "distinct (map user_id (nodes g))" and e: "user_exists g k"
  shows "\<exists>i. match_user g (Some k) = [i] \<and> i < length (nodes g) \<and> user_id (nodes g ! i) = k"
proof -
  have ne: "match_user g (Some k) \<noteq> []" using e by (simp add: match_user_empty_iff)
  have di: "distinct (match_user g (Some k))" by (simp add: match_user_def)
  have eq: "\<And>x y. x \<in> set (match_user g (Some k)) \<Longrightarrow> y \<in> set (match_user g (Some k)) \<Longrightarrow> x = y"
  proof -
    fix x y assume x: "x \<in> set (match_user g (Some k))" and y: "y \<in> set (match_user g (Some k))"
    have "map user_id (nodes g) ! x = map user_id (nodes g) ! y"
      using match_user_key[OF x] match_user_key[OF y] match_user_bound[OF x] match_user_bound[OF y] by simp
    then show "x = y"
      using nth_eq_iff_index_eq[OF d, of x y] match_user_bound[OF x] match_user_bound[OF y] by simp
  qed
  have "length (match_user g (Some k)) \<le> 1" using di eq by (rule distinct_all_equal)
  then obtain i where i: "match_user g (Some k) = [i]" using ne
    by (cases "match_user g (Some k)") auto
  have m: "i \<in> set (match_user g (Some k))" using i by simp
  show ?thesis using i match_user_bound[OF m] match_user_key[OF m] by simp
qed


section \<open>What each write does to the graph\<close>

lemma upsertUser_present:
  "user_exists g (user_id p) \<Longrightarrow> upsertUser sanitize g p = (g, [])"
  by (simp add: upsertUser_def Let_def toInteger_number_def match_user_empty_iff)

lemma upsertUser_absent:
  "\<not> user_exists g (user_id p) \<Longrightarrow>
     upsertUser sanitize g p = (g\<lparr> nodes := nodes g @ [p\<lparr> bio := sanitize (bio p) \<rparr>] \<rparr>, [])"
  by (simp add: upsertUser_def Let_def toInteger_number_def match_user_empty_iff)

lemma merge_rel_nodes: "nodes (fst (merge_rel g a t b)) = nodes g"
  by (simp add: merge_rel_def Let_def)

lemma merge_rel_rels:
  "rels (fst (merge_rel g a t b)) =
     (if \<lparr>rel_from = a, rel_label = t, rel_to = b\<rparr> \<in> set (rels g) then rels g
      else rels g @ [\<lparr>rel_from = a, rel_label = t, rel_to = b\<rparr>])"
  by (auto simp: merge_rel_def Let_def filter_empty_conv)

lemma merge_rel_rows_ne: "snd (merge_rel g a t b) \<noteq> []"
  by (simp add: merge_rel_def Let_def)

lemma merge_rows_nodes: "nodes (fst (merge_rows t rows g)) = nodes g"
proof (induction rows arbitrary: g)
  case Nil show ?case by simp
next
  case (Cons x rows)
  obtain a b where x: "x = (a, b)" by (cases x)
  show ?case using Cons.IH[of "fst (merge_rel g a t b)"]
    by (simp add: x split_beta Let_def merge_rel_nodes)
qed

lemma merge_rows_set:
  "set (rels (fst (merge_rows t rows g))) =
     set (rels g) \<union> (\<lambda>(a, b). \<lparr>rel_from = a, rel_label = t, rel_to = b\<rparr>) ` set rows"
proof (induction rows arbitrary: g)
  case Nil show ?case by simp
next
  case (Cons x rows)
  obtain a b where x: "x = (a, b)" by (cases x)
  show ?case using Cons.IH[of "fst (merge_rel g a t b)"]
    by (auto simp: x split_beta Let_def merge_rel_rels)
qed

lemma merge_rows_distinct:
  "distinct (rels g) \<Longrightarrow> distinct (rels (fst (merge_rows t rows g)))"
proof (induction rows arbitrary: g)
  case Nil then show ?case by simp
next
  case (Cons x rows)
  obtain a b where x: "x = (a, b)" by (cases x)
  have "distinct (rels (fst (merge_rel g a t b)))" using Cons.prems by (simp add: merge_rel_rels)
  from Cons.IH[OF this] show ?case by (simp add: x split_beta Let_def)
qed

lemma merge_rows_cursor_empty: "(snd (merge_rows t rows g) = []) = (rows = [])"
proof (cases rows)
  case Nil then show ?thesis by simp
next
  case (Cons x rest)
  obtain a b where x: "x = (a, b)" by (cases x)
  show ?thesis using merge_rel_rows_ne[of g a t b] by (simp add: Cons x split_beta Let_def)
qed

lemma product_Nil_right: "List.product xs [] = []"
  by (induction xs) simp_all

lemma product_empty_iff: "(List.product xs ys = []) = (xs = [] \<or> ys = [])"
  by (cases xs; cases ys) (simp_all add: product_Nil_right)

lemma nodes_follows: "nodes (fst (upsertFollowsRelationship g a b)) = nodes g"
  by (simp add: upsertFollowsRelationship_def split_beta Let_def merge_rows_nodes)

lemma nodes_invited: "nodes (fst (upsertInvitedByUserRelationship g a b)) = nodes g"
  by (simp add: upsertInvitedByUserRelationship_def split_beta Let_def merge_rows_nodes)

lemma follows_cursor_empty:
  "(snd (upsertFollowsRelationship g a b) = []) = (\<not> user_exists g a \<or> \<not> user_exists g b)"
  by (simp add: upsertFollowsRelationship_def split_beta Let_def toInteger_number_def
      merge_rows_cursor_empty product_empty_iff match_user_empty_iff)

lemma invited_cursor_empty:
  "(snd (upsertInvitedByUserRelationship g a b) = []) = (\<not> user_exists g a \<or> \<not> user_exists g b)"
  by (simp add: upsertInvitedByUserRelationship_def split_beta Let_def toInteger_number_def
      merge_rows_cursor_empty product_empty_iff match_user_empty_iff)

lemma follows_missing:
  assumes "\<not> user_exists g a \<or> \<not> user_exists g b"
  shows "upsertFollowsRelationship g a b = (g, [])"
proof -
  have "List.product (match_user g (Some a)) (match_user g (Some b)) = []"
    using assms by (simp add: product_empty_iff match_user_empty_iff)
  then show ?thesis by (simp add: upsertFollowsRelationship_def toInteger_number_def)
qed

lemma invited_missing:
  assumes "\<not> user_exists g a \<or> \<not> user_exists g b"
  shows "upsertInvitedByUserRelationship g a b = (g, [])"
proof -
  have "List.product (match_user g (Some a)) (match_user g (Some b)) = []"
    using assms by (simp add: product_empty_iff match_user_empty_iff)
  then show ?thesis by (simp add: upsertInvitedByUserRelationship_def toInteger_number_def)
qed



section \<open>The invariant of the writes\<close>

lemma nodes_index_unique:
  assumes "distinct (map user_id (nodes g))" "i < length (nodes g)" "j < length (nodes g)"
    "user_id (nodes g ! i) = user_id (nodes g ! j)"
  shows "i = j"
  using nth_eq_iff_index_eq[OF assms(1), of i j] assms(2-4) by simp

lemma graph_inv_empty: "graph_inv empty_graph"
  by (simp add: graph_inv_def empty_graph_def)

lemma graph_inv_upsertUser:
  assumes "graph_inv g" shows "graph_inv (fst (upsertUser sanitize g p))"
proof (cases "user_exists g (user_id p)")
  case True then show ?thesis using assms by (simp add: upsertUser_present)
next
  case False
  have "list_all (\<lambda>r. rel_from r < Suc (length (nodes g)) \<and> rel_to r < Suc (length (nodes g))) (rels g)"
    using assms unfolding graph_inv_def list_all_iff by auto
  then show ?thesis using assms False
    by (simp add: upsertUser_absent graph_inv_def user_exists_def)
qed

lemma graph_inv_merge_rows:
  assumes "graph_inv g" and "\<And>a b. (a, b) \<in> set rows \<Longrightarrow> a < length (nodes g) \<and> b < length (nodes g)"
  shows "graph_inv (fst (merge_rows t rows g))"
proof -
  have "\<And>r. r \<in> set (rels (fst (merge_rows t rows g))) \<Longrightarrow>
          rel_from r < length (nodes g) \<and> rel_to r < length (nodes g)"
    using assms unfolding merge_rows_set graph_inv_def list_all_iff by auto
  then show ?thesis using assms(1) merge_rows_distinct[of g t rows]
    unfolding graph_inv_def list_all_iff merge_rows_nodes by blast
qed

lemma graph_inv_follows:
  assumes "graph_inv g" shows "graph_inv (fst (upsertFollowsRelationship g a b))"
proof -
  have "graph_inv (fst (merge_rows FOLLOWS (List.product (match_user g (Some a)) (match_user g (Some b))) g))"
    using assms by (rule graph_inv_merge_rows) (auto dest: match_user_bound)
  then show ?thesis by (simp add: upsertFollowsRelationship_def toInteger_number_def split_beta Let_def)
qed

lemma graph_inv_invited:
  assumes "graph_inv g" shows "graph_inv (fst (upsertInvitedByUserRelationship g a b))"
proof -
  have "graph_inv (fst (merge_rows INVITED_BY_USER
          (map (\<lambda>(userA, userB). (userB, userA)) (List.product (match_user g (Some a)) (match_user g (Some b)))) g))"
    using assms by (rule graph_inv_merge_rows) (auto dest: match_user_bound)
  then show ?thesis by (simp add: upsertInvitedByUserRelationship_def toInteger_number_def split_beta Let_def)
qed

lemma graph_inv_apply_op: "graph_inv g \<Longrightarrow> graph_inv (apply_op sanitize g op)"
  by (cases op) (simp_all add: graph_inv_upsertUser graph_inv_follows graph_inv_invited)

lemma graph_inv_run_ops: "graph_inv g \<Longrightarrow> graph_inv (run_ops sanitize g ops)"
  unfolding run_ops_def by (induction ops arbitrary: g) (simp_all add: graph_inv_apply_op)

lemma upsertFollows_single:
  assumes "match_user g (Some a) = [i]" "match_user g (Some b) = [j]"
  shows "upsertFollowsRelationship g a b =
           (fst (merge_rel g i FOLLOWS j), map RRel (snd (merge_rel g i FOLLOWS j)))"
  using assms by (simp add: upsertFollowsRelationship_def toInteger_number_def split_beta Let_def)

lemma upsertInvited_single:
  assumes "match_user g (Some a) = [i]" "match_user g (Some b) = [j]"
  shows "upsertInvitedByUserRelationship g a b =
           (fst (merge_rel g j INVITED_BY_USER i), map RRel (snd (merge_rel g j INVITED_BY_USER i)))"
  using assms by (simp add: upsertInvitedByUserRelationship_def toInteger_number_def split_beta Let_def)

lemma match_user_mem:
  "(i \<in> set (match_user g (Some k))) = (i < length (nodes g) \<and> user_id (nodes g ! i) = k)"
  by (auto simp: match_user_def has_user_id_def)

lemma match_rel_pair:
  assumes "match_user g (Some a) = [i]" "match_user g (Some b) = [j]"
  shows "match_rel g (has_user_id (Some a)) t (has_user_id (Some b)) =
           filter (\<lambda>r. r = \<lparr>rel_from = i, rel_label = t, rel_to = j\<rparr>) (rels g)"
proof -
  have i: "\<And>n. (n < length (nodes g) \<and> user_id (nodes g ! n) = a) = (n = i)"
    using match_user_mem[of _ g a] assms(1) by simp
  have j: "\<And>n. (n < length (nodes g) \<and> user_id (nodes g ! n) = b) = (n = j)"
    using match_user_mem[of _ g b] assms(2) by simp
  have "\<And>r. (rel_label r = t \<and> rel_from r < length (nodes g) \<and> rel_to r < length (nodes g)
                 \<and> has_user_id (Some a) (nodes g ! rel_from r) \<and> has_user_id (Some b) (nodes g ! rel_to r))
            = (r = \<lparr>rel_from = i, rel_label = t, rel_to = j\<rparr>)"
  proof -
    fix r :: rel
    have "(rel_label r = t \<and> rel_from r < length (nodes g) \<and> rel_to r < length (nodes g)
                 \<and> has_user_id (Some a) (nodes g ! rel_from r) \<and> has_user_id (Some b) (nodes g ! rel_to r))
          = (rel_label r = t \<and> rel_from r = i \<and> rel_to r = j)"
      using i[of "rel_from r"] j[of "rel_to r"] by (auto simp: has_user_id_def)
    also have "\<dots> = (r = \<lparr>rel_from = i, rel_label = t, rel_to = j\<rparr>)"
      by (cases r) auto
    finally show "(rel_label r = t \<and> rel_from r < length (nodes g) \<and> rel_to r < length (nodes g)
                 \<and> has_user_id (Some a) (nodes g ! rel_from r) \<and> has_user_id (Some b) (nodes g ! rel_to r))
            = (r = \<lparr>rel_from = i, rel_label = t, rel_to = j\<rparr>)" .
  qed
  then show ?thesis unfolding match_rel_def by simp
qed

lemma filter_eq_distinct_length:
  "distinct xs \<Longrightarrow> x \<in> set xs \<Longrightarrow> length (filter (\<lambda>r. r = x) xs) = 1"
proof (induction xs)
  case Nil then show ?case by simp
next
  case (Cons y ys)
  show ?case
  proof (cases "y = x")
    case True
    then have "x \<notin> set ys" using Cons.prems by simp
    then have "filter (\<lambda>r. r = x) ys = []" by (auto simp: filter_empty_conv)
    then show ?thesis using True by simp
  next
    case False then show ?thesis using Cons by simp
  qed
qed

lemma match_user_same_nodes: "nodes g' = nodes g \<Longrightarrow> match_user g' k = match_user g k"
  by (simp add: match_user_def)

lemma merge_rel_idem: "fst (merge_rel (fst (merge_rel g a t b)) a t b) = fst (merge_rel g a t b)"
proof -
  have "\<lparr>rel_from = a, rel_label = t, rel_to = b\<rparr> \<in> set (rels (fst (merge_rel g a t b)))"
    by (simp add: merge_rel_rels)
  then have "filter (\<lambda>r. r = \<lparr>rel_from = a, rel_label = t, rel_to = b\<rparr>) (rels (fst (merge_rel g a t b))) \<noteq> []"
    by (simp add: filter_empty_conv)
  then show ?thesis by (simp add: merge_rel_def[of "fst (merge_rel g a t b)"] Let_def)
qed

section \<open>An edge upsert with a missing endpoint\<close>

text \<open>
  C2. When the node of either id is missing, each of the two edge upserts returns the graph
  as it was together with a cursor of no rows; the operations have no error result. The
  cursor is empty exactly when an endpoint is missing, so its emptiness is what tells the
  caller.
\<close>

theorem edge_upsert_missing_endpoint:
  "(\<not> user_exists g a \<or> \<not> user_exists g b \<longrightarrow>
       upsertFollowsRelationship g a b = (g, [])
     \<and> upsertInvitedByUserRelationship g a b = (g, []))
   \<and> (snd (upsertFollowsRelationship g a b) = []) = (\<not> user_exists g a \<or> \<not> user_exists g b)
   \<and> (snd (upsertInvitedByUserRelationship g a b) = []) = (\<not> user_exists g a \<or> \<not> user_exists g b)"
  using follows_missing[of g a b] invited_missing[of g a b]
  by (simp only: follows_cursor_empty invited_cursor_empty) blast

theorem edge_upsert_missing_endpoint_witness:
  "\<not> user_exists example_graph 4
   \<and> upsertFollowsRelationship example_graph 4 1 = (example_graph, [])
   \<and> upsertInvitedByUserRelationship example_graph 4 1 = (example_graph, [])
   \<and> upsertFollowsRelationship example_graph 1 4 = (example_graph, [])
   \<and> user_exists example_graph 1 \<and> user_exists example_graph 2
   \<and> snd (upsertFollowsRelationship example_graph 1 2) \<noteq> []
   \<and> snd (upsertInvitedByUserRelationship example_graph 1 2) \<noteq> []"
proof -
  have h4: "\<not> user_exists example_graph 4" by code_simp
  have h1: "user_exists example_graph 1" by code_simp
  have h2: "user_exists example_graph 2" by code_simp
  show ?thesis
    using h4 h1 h2 edge_upsert_missing_endpoint[of example_graph 4 1]
      edge_upsert_missing_endpoint[of example_graph 1 4]
      edge_upsert_missing_endpoint[of example_graph 1 2]
    by simp
qed

section \<open>Repeating an edge upsert\<close>

lemma funpow_fixed:
  assumes "f (f x) = f x" and "1 \<le> N"
  shows "(f ^^ N) x = f x"
  using assms(2)
proof (induction N)
  case 0 then show ?case by simp
next
  case (Suc n)
  show ?case
  proof (cases n)
    case 0 then show ?thesis by simp
  next
    case (Suc m)
    then have "(f ^^ n) x = f x" using Suc.IH by simp
    then show ?thesis using assms(1) by simp
  qed
qed

lemma follows_once:
  assumes inv: "graph_inv g" and ea: "user_exists g a" and eb: "user_exists g b"
  shows "fst (upsertFollowsRelationship (fst (upsertFollowsRelationship g a b)) a b)
           = fst (upsertFollowsRelationship g a b)
       \<and> length (match_rel (fst (upsertFollowsRelationship g a b))
                   (has_user_id (Some a)) FOLLOWS (has_user_id (Some b))) = 1"
proof -
  have d: "distinct (map user_id (nodes g))" using inv by (simp add: graph_inv_def)
  obtain i where i: "match_user g (Some a) = [i]" using match_user_unique[OF d ea] by blast
  obtain j where j: "match_user g (Some b) = [j]" using match_user_unique[OF d eb] by blast
  let ?g1 = "fst (merge_rel g i FOLLOWS j)"
  have g1: "fst (upsertFollowsRelationship g a b) = ?g1" by (simp add: upsertFollows_single[OF i j])
  have n1: "nodes ?g1 = nodes g" by (rule merge_rel_nodes)
  have i1: "match_user ?g1 (Some a) = [i]" using i match_user_same_nodes[OF n1] by simp
  have j1: "match_user ?g1 (Some b) = [j]" using j match_user_same_nodes[OF n1] by simp
  have idem: "fst (upsertFollowsRelationship ?g1 a b) = ?g1"
    by (simp add: upsertFollows_single[OF i1 j1] merge_rel_idem)
  have dr: "distinct (rels ?g1)" using inv by (simp add: merge_rel_rels graph_inv_def)
  have mem: "\<lparr>rel_from = i, rel_label = FOLLOWS, rel_to = j\<rparr> \<in> set (rels ?g1)"
    by (simp add: merge_rel_rels)
  have "length (match_rel ?g1 (has_user_id (Some a)) FOLLOWS (has_user_id (Some b))) = 1"
    unfolding match_rel_pair[OF i1 j1] using dr mem by (rule filter_eq_distinct_length)
  then show ?thesis using idem g1 by simp
qed

lemma invited_once:
  assumes inv: "graph_inv g" and ea: "user_exists g a" and eb: "user_exists g b"
  shows "fst (upsertInvitedByUserRelationship (fst (upsertInvitedByUserRelationship g a b)) a b)
           = fst (upsertInvitedByUserRelationship g a b)
       \<and> length (match_rel (fst (upsertInvitedByUserRelationship g a b))
                   (has_user_id (Some b)) INVITED_BY_USER (has_user_id (Some a))) = 1"
proof -
  have d: "distinct (map user_id (nodes g))" using inv by (simp add: graph_inv_def)
  obtain i where i: "match_user g (Some a) = [i]" using match_user_unique[OF d ea] by blast
  obtain j where j: "match_user g (Some b) = [j]" using match_user_unique[OF d eb] by blast
  let ?g1 = "fst (merge_rel g j INVITED_BY_USER i)"
  have g1: "fst (upsertInvitedByUserRelationship g a b) = ?g1" by (simp add: upsertInvited_single[OF i j])
  have n1: "nodes ?g1 = nodes g" by (rule merge_rel_nodes)
  have i1: "match_user ?g1 (Some a) = [i]" using i match_user_same_nodes[OF n1] by simp
  have j1: "match_user ?g1 (Some b) = [j]" using j match_user_same_nodes[OF n1] by simp
  have idem: "fst (upsertInvitedByUserRelationship ?g1 a b) = ?g1"
    by (simp add: upsertInvited_single[OF i1 j1] merge_rel_idem)
  have dr: "distinct (rels ?g1)" using inv by (simp add: merge_rel_rels graph_inv_def)
  have mem: "\<lparr>rel_from = j, rel_label = INVITED_BY_USER, rel_to = i\<rparr> \<in> set (rels ?g1)"
    by (simp add: merge_rel_rels)
  have "length (match_rel ?g1 (has_user_id (Some b)) INVITED_BY_USER (has_user_id (Some a))) = 1"
    unfolding match_rel_pair[OF j1 i1] using dr mem by (rule filter_eq_distinct_length)
  then show ?thesis using idem g1 by simp
qed

text \<open>
  C3. In a graph with one node per \<open>user_id\<close> and no parallel relationship (every graph
  the writes build, by \<open>graph_inv_run_ops\<close>), for two existing users and \<open>N \<ge> 1\<close>: \<open>N\<close> calls
  of \<open>upsertFollowsRelationship\<close> on the pair leave the graph that one call leaves, and in
  it exactly one \<open>FOLLOWS\<close> relationship goes from the follower to the followed user.
  The same holds of \<open>upsertInvitedByUserRelationship\<close> and the \<open>INVITED_BY_USER\<close>
  relationship from the invited user to the inviter.
\<close>

theorem edge_upsert_idempotent:
  assumes "graph_inv g" and "user_exists g a" and "user_exists g b" and "1 \<le> N"
  shows "((\<lambda>h. fst (upsertFollowsRelationship h a b)) ^^ N) g = fst (upsertFollowsRelationship g a b)
       \<and> length (match_rel (((\<lambda>h. fst (upsertFollowsRelationship h a b)) ^^ N) g)
                   (has_user_id (Some a)) FOLLOWS (has_user_id (Some b))) = 1
       \<and> ((\<lambda>h. fst (upsertInvitedByUserRelationship h a b)) ^^ N) g
            = fst (upsertInvitedByUserRelationship g a b)
       \<and> length (match_rel (((\<lambda>h. fst (upsertInvitedByUserRelationship h a b)) ^^ N) g)
                   (has_user_id (Some b)) INVITED_BY_USER (has_user_id (Some a))) = 1
       \<and> graph_inv (((\<lambda>h. fst (upsertFollowsRelationship h a b)) ^^ N) g)
       \<and> graph_inv (((\<lambda>h. fst (upsertInvitedByUserRelationship h a b)) ^^ N) g)"
proof -
  have f: "((\<lambda>h. fst (upsertFollowsRelationship h a b)) ^^ N) g = fst (upsertFollowsRelationship g a b)"
    using follows_once[OF assms(1-3)] assms(4) by (intro funpow_fixed) simp_all
  have v: "((\<lambda>h. fst (upsertInvitedByUserRelationship h a b)) ^^ N) g
            = fst (upsertInvitedByUserRelationship g a b)"
    using invited_once[OF assms(1-3)] assms(4) by (intro funpow_fixed) simp_all
  show ?thesis unfolding f v
    using follows_once[OF assms(1-3)] invited_once[OF assms(1-3)]
      graph_inv_follows[OF assms(1)] graph_inv_invited[OF assms(1)] by simp
qed

theorem edge_upsert_idempotent_witness:
  "graph_inv example_graph \<and> user_exists example_graph 1 \<and> user_exists example_graph 2
   \<and> rels (((\<lambda>h. fst (upsertFollowsRelationship h 1 2)) ^^ 3) example_graph)
        = [\<lparr>rel_from = 0, rel_label = FOLLOWS, rel_to = 1\<rparr>]
   \<and> length (match_rel (((\<lambda>h. fst (upsertFollowsRelationship h 1 2)) ^^ 3) example_graph)
                   (has_user_id (Some 1)) FOLLOWS (has_user_id (Some 2))) = 1
   \<and> rels (((\<lambda>h. fst (upsertInvitedByUserRelationship h 1 2)) ^^ 3) example_graph)
        = [\<lparr>rel_from = 1, rel_label = INVITED_BY_USER, rel_to = 0\<rparr>]
   \<and> length (match_rel (((\<lambda>h. fst (upsertInvitedByUserRelationship h 1 2)) ^^ 3) example_graph)
                   (has_user_id (Some 2)) INVITED_BY_USER (has_user_id (Some 1))) = 1"
proof -
  have h0: "graph_inv example_graph" by code_simp
  have h1: "user_exists example_graph 1" by code_simp
  have h2: "user_exists example_graph 2" by code_simp
  have h3: "(1::nat) \<le> 3" by simp
  have r1: "rels (fst (upsertFollowsRelationship example_graph 1 2))
        = [\<lparr>rel_from = 0, rel_label = FOLLOWS, rel_to = 1\<rparr>]" by code_simp
  have r2: "rels (fst (upsertInvitedByUserRelationship example_graph 1 2))
        = [\<lparr>rel_from = 1, rel_label = INVITED_BY_USER, rel_to = 0\<rparr>]" by code_simp
  note t = edge_upsert_idempotent[OF h0 h1 h2 h3]
  have e1: "((\<lambda>h. fst (upsertFollowsRelationship h 1 2)) ^^ 3) example_graph
              = fst (upsertFollowsRelationship example_graph 1 2)" using t by blast
  have e2: "((\<lambda>h. fst (upsertInvitedByUserRelationship h 1 2)) ^^ 3) example_graph
              = fst (upsertInvitedByUserRelationship example_graph 1 2)" using t by blast
  have l1: "length (match_rel (((\<lambda>h. fst (upsertFollowsRelationship h 1 2)) ^^ 3) example_graph)
                   (has_user_id (Some 1)) FOLLOWS (has_user_id (Some 2))) = 1" using t by blast
  have l2: "length (match_rel (((\<lambda>h. fst (upsertInvitedByUserRelationship h 1 2)) ^^ 3) example_graph)
                   (has_user_id (Some 2)) INVITED_BY_USER (has_user_id (Some 1))) = 1" using t by blast
  have r1': "rels (((\<lambda>h. fst (upsertFollowsRelationship h 1 2)) ^^ 3) example_graph)
        = [\<lparr>rel_from = 0, rel_label = FOLLOWS, rel_to = 1\<rparr>]" unfolding e1 by (rule r1)
  have r2': "rels (((\<lambda>h. fst (upsertInvitedByUserRelationship h 1 2)) ^^ 3) example_graph)
        = [\<lparr>rel_from = 1, rel_label = INVITED_BY_USER, rel_to = 0\<rparr>]" unfolding e2 by (rule r2)
  show ?thesis using h0 h1 h2 r1' l1 r2' l2 by blast
qed

section \<open>The create-only node upsert\<close>

lemma user_exists_append:
  "user_exists (g\<lparr>nodes := nodes g @ [n]\<rparr>) k = (user_exists g k \<or> user_id n = k)"
  by (auto simp: user_exists_def)

lemma filter_key_absent: "\<not> user_exists g k \<Longrightarrow> filter (\<lambda>n. user_id n = k) (nodes g) = []"
  by (auto simp: user_exists_def filter_empty_conv)

lemma user_exists_same_nodes: "nodes g' = nodes g \<Longrightarrow> user_exists g' k = user_exists g k"
  by (simp add: user_exists_def)

lemma run_ops_Cons: "run_ops sanitize g (op # ops) = run_ops sanitize (apply_op sanitize g op) ops"
  by (simp add: run_ops_def)

lemma run_ops_Nil: "run_ops sanitize g [] = g"
  by (simp add: run_ops_def)

lemma run_ops_nodes_key:
  "filter (\<lambda>n. user_id n = k) (nodes (run_ops sanitize g ops)) =
     (if user_exists g k then filter (\<lambda>n. user_id n = k) (nodes g)
      else (case find (\<lambda>q. user_id q = k) (upserted_users ops) of
              None \<Rightarrow> [] | Some q \<Rightarrow> [q\<lparr>bio := sanitize (bio q)\<rparr>]))"
proof (induction ops arbitrary: g)
  case Nil
  show ?case by (simp add: run_ops_Nil filter_key_absent)
next
  case (Cons op ops)
  show ?case
  proof (cases op)
    case (UpsertUser p)
    have u: "upserted_users (op # ops) = p # upserted_users ops" by (simp add: UpsertUser)
    show ?thesis
    proof (cases "user_exists g (user_id p)")
      case True
      have s: "run_ops sanitize g (op # ops) = run_ops sanitize g ops"
        using True by (simp add: run_ops_Cons UpsertUser upsertUser_present)
      show ?thesis unfolding s u using True Cons.IH[of g] by auto
    next
      case False
      let ?n = "p\<lparr>bio := sanitize (bio p)\<rparr>"
      let ?g1 = "g\<lparr>nodes := nodes g @ [?n]\<rparr>"
      have s: "run_ops sanitize g (op # ops) = run_ops sanitize ?g1 ops"
        using False by (simp add: run_ops_Cons UpsertUser upsertUser_absent)
      show ?thesis
      proof (cases "user_id p = k")
        case True
        have "user_exists ?g1 k" using True by (simp add: user_exists_append)
        then have "filter (\<lambda>n. user_id n = k) (nodes (run_ops sanitize ?g1 ops)) =
                filter (\<lambda>n. user_id n = k) (nodes ?g1)"
          using Cons.IH[of ?g1] by simp
        moreover have "\<not> user_exists g k" using True False by simp
        ultimately show ?thesis unfolding s u using True by (simp add: filter_key_absent)
      next
        case False
        have "user_exists ?g1 k = user_exists g k"
          using False by (simp add: user_exists_append)
        then show ?thesis unfolding s u using False Cons.IH[of ?g1] by simp
      qed
    qed
  next
    case (UpsertFollows a b)
    let ?g1 = "fst (upsertFollowsRelationship g a b)"
    have n: "nodes ?g1 = nodes g" by (rule nodes_follows)
    have s: "run_ops sanitize g (op # ops) = run_ops sanitize ?g1 ops"
      by (simp add: run_ops_Cons UpsertFollows)
    have u: "upserted_users (op # ops) = upserted_users ops" by (simp add: UpsertFollows)
    show ?thesis unfolding s u using Cons.IH[of ?g1]
      by (simp add: n user_exists_same_nodes[OF n])
  next
    case (UpsertInvitedByUser a b)
    let ?g1 = "fst (upsertInvitedByUserRelationship g a b)"
    have n: "nodes ?g1 = nodes g" by (rule nodes_invited)
    have s: "run_ops sanitize g (op # ops) = run_ops sanitize ?g1 ops"
      by (simp add: run_ops_Cons UpsertInvitedByUser)
    have u: "upserted_users (op # ops) = upserted_users ops" by (simp add: UpsertInvitedByUser)
    show ?thesis unfolding s u using Cons.IH[of ?g1]
      by (simp add: n user_exists_same_nodes[OF n])
  qed
qed

lemma user_exists_empty: "\<not> user_exists empty_graph k"
  by (simp add: user_exists_def empty_graph_def)

text \<open>
  C1. \<open>upsertUser\<close> creates only. When no node has the profile's \<open>user_id\<close>, one node is
  appended that carries every attribute of the profile, \<open>bio\<close> as the sanitizer returned
  it, and nothing else changes; when a node has it, the graph is returned as it was. A
  graph with one node per \<open>user_id\<close> stays so. After any run of the layer's writes from
  the empty graph there is at most one node per \<open>user_id\<close>, and the node of a \<open>user_id\<close> is
  the one the first \<open>upsertUser\<close> call for it created.
\<close>

theorem upsertUser_create_only:
  "(\<not> user_exists g (user_id p) \<longrightarrow>
      upsertUser sanitize g p = (g\<lparr>nodes := nodes g @ [p\<lparr>bio := sanitize (bio p)\<rparr>]\<rparr>, []))
   \<and> (user_exists g (user_id p) \<longrightarrow> upsertUser sanitize g p = (g, []))
   \<and> (distinct (map user_id (nodes g)) \<longrightarrow>
        distinct (map user_id (nodes (fst (upsertUser sanitize g p)))))
   \<and> distinct (map user_id (nodes (run_ops sanitize empty_graph ops)))
   \<and> filter (\<lambda>n. user_id n = k) (nodes (run_ops sanitize empty_graph ops)) =
       (case find (\<lambda>q. user_id q = k) (upserted_users ops) of
          None \<Rightarrow> [] | Some q \<Rightarrow> [q\<lparr>bio := sanitize (bio q)\<rparr>])"
proof -
  have a: "\<not> user_exists g (user_id p) \<longrightarrow>
      upsertUser sanitize g p = (g\<lparr>nodes := nodes g @ [p\<lparr>bio := sanitize (bio p)\<rparr>]\<rparr>, [])"
    by (simp add: upsertUser_absent)
  have b: "user_exists g (user_id p) \<longrightarrow> upsertUser sanitize g p = (g, [])"
    by (simp add: upsertUser_present)
  have c: "distinct (map user_id (nodes g)) \<longrightarrow>
        distinct (map user_id (nodes (fst (upsertUser sanitize g p))))"
    by (cases "user_exists g (user_id p)")
       (simp_all add: upsertUser_present upsertUser_absent user_exists_def)
  have d: "distinct (map user_id (nodes (run_ops sanitize empty_graph ops)))"
    using graph_inv_run_ops[OF graph_inv_empty, of sanitize ops] by (simp add: graph_inv_def)
  have e: "filter (\<lambda>n. user_id n = k) (nodes (run_ops sanitize empty_graph ops)) =
       (case find (\<lambda>q. user_id q = k) (upserted_users ops) of
          None \<Rightarrow> [] | Some q \<Rightarrow> [q\<lparr>bio := sanitize (bio q)\<rparr>])"
    by (simp add: run_ops_nodes_key user_exists_empty)
  show ?thesis using a b c d e by blast
qed

theorem upsertUser_create_only_witness:
  "\<not> user_exists empty_graph (user_id (example_user 1))
   \<and> upsertUser example_sanitize empty_graph (example_user 1)
       = (\<lparr>nodes = [(example_user 1)\<lparr>bio := Some ''hithere''\<rparr>], rels = []\<rparr>, [])
   \<and> user_exists example_graph (user_id ((example_user 1)\<lparr>name := Some ''Eve''\<rparr>))
   \<and> upsertUser example_sanitize example_graph ((example_user 1)\<lparr>name := Some ''Eve''\<rparr>)
       = (example_graph, [])
   \<and> nodes (run_ops example_sanitize empty_graph
        [UpsertUser (example_user 1), UpsertUser ((example_user 1)\<lparr>name := Some ''Eve''\<rparr>)])
       = [(example_user 1)\<lparr>bio := Some ''hithere''\<rparr>]"
proof -
  have h1: "\<not> user_exists empty_graph (user_id (example_user 1))" by code_simp
  have h2: "user_exists example_graph (user_id ((example_user 1)\<lparr>name := Some ''Eve''\<rparr>))"
    by code_simp
  have v: "empty_graph\<lparr>nodes := nodes empty_graph @
               [(example_user 1)\<lparr>bio := example_sanitize (bio (example_user 1))\<rparr>]\<rparr>
           = \<lparr>nodes = [(example_user 1)\<lparr>bio := Some ''hithere''\<rparr>], rels = []\<rparr>"
    by code_simp
  have r: "nodes (run_ops example_sanitize empty_graph
        [UpsertUser (example_user 1), UpsertUser ((example_user 1)\<lparr>name := Some ''Eve''\<rparr>)])
       = [(example_user 1)\<lparr>bio := Some ''hithere''\<rparr>]" by code_simp
  have t1: "upsertUser example_sanitize empty_graph (example_user 1)
       = (\<lparr>nodes = [(example_user 1)\<lparr>bio := Some ''hithere''\<rparr>], rels = []\<rparr>, [])"
    using upsertUser_create_only[of empty_graph "example_user 1" example_sanitize] h1 v by simp
  have t2: "upsertUser example_sanitize example_graph ((example_user 1)\<lparr>name := Some ''Eve''\<rparr>)
       = (example_graph, [])"
    using upsertUser_create_only[of example_graph "(example_user 1)\<lparr>name := Some ''Eve''\<rparr>"
        example_sanitize] h2 by blast
  show ?thesis using h1 h2 t1 t2 r by blast
qed

section \<open>Pages of followers\<close>

lemma concat_pages:
  "concat (map (\<lambda>i. take p (drop (i * p) xs)) [0..<n]) = take (n * p) xs"
proof (induction n)
  case 0 show ?case by simp
next
  case (Suc n)
  have "take (Suc n * p) xs = take (n * p) xs @ take p (drop (n * p) xs)"
    using take_add[of "n * p" p xs] by (simp add: add.commute)
  then show ?case using Suc by simp
qed

lemma rel_eqI:
  fixes r s :: rel
  assumes "rel_from r = rel_from s" "rel_label r = rel_label s" "rel_to r = rel_to s"
  shows "r = s"
  using assms by (cases r, cases s) simp

lemma match_rel_distinct: "distinct (rels g) \<Longrightarrow> distinct (match_rel g P t Q)"
  by (simp add: match_rel_def)

lemma match_rel_mem:
  "(r \<in> set (match_rel g P t Q)) =
     (r \<in> set (rels g) \<and> rel_label r = t \<and> rel_from r < length (nodes g)
      \<and> rel_to r < length (nodes g) \<and> P (nodes g ! rel_from r) \<and> Q (nodes g ! rel_to r))"
  by (auto simp: match_rel_def)

text \<open>Among the relationships into one user, the start node's key tells them apart.\<close>

lemma into_key_inj:
  assumes inv: "graph_inv g"
  shows "inj_on (\<lambda>r. user_id (nodes g ! rel_from r)) (set (match_rel g P t (has_user_id k)))"
proof (rule inj_onI)
  fix r s
  assume r: "r \<in> set (match_rel g P t (has_user_id k))"
    and s: "s \<in> set (match_rel g P t (has_user_id k))"
    and e: "user_id (nodes g ! rel_from r) = user_id (nodes g ! rel_from s)"
  have d: "distinct (map user_id (nodes g))" using inv by (simp add: graph_inv_def)
  have f: "rel_from r = rel_from s"
    using r s e by (intro nodes_index_unique[OF d]) (simp_all add: match_rel_mem)
  have "user_id (nodes g ! rel_to r) = user_id (nodes g ! rel_to s)"
    using r s by (simp add: match_rel_mem has_user_id_def)
  then have t: "rel_to r = rel_to s"
    using r s by (intro nodes_index_unique[OF d]) (simp_all add: match_rel_mem)
  show "r = s" using f t r s by (intro rel_eqI) (simp_all add: match_rel_mem)
qed

text \<open>Among the relationships out of one user, the end node's key tells them apart.\<close>

lemma outof_key_inj:
  assumes inv: "graph_inv g"
  shows "inj_on (\<lambda>r. user_id (nodes g ! rel_to r)) (set (match_rel g (has_user_id k) t Q))"
proof (rule inj_onI)
  fix r s
  assume r: "r \<in> set (match_rel g (has_user_id k) t Q)"
    and s: "s \<in> set (match_rel g (has_user_id k) t Q)"
    and e: "user_id (nodes g ! rel_to r) = user_id (nodes g ! rel_to s)"
  have d: "distinct (map user_id (nodes g))" using inv by (simp add: graph_inv_def)
  have t: "rel_to r = rel_to s"
    using r s e by (intro nodes_index_unique[OF d]) (simp_all add: match_rel_mem)
  have "user_id (nodes g ! rel_from r) = user_id (nodes g ! rel_from s)"
    using r s by (simp add: match_rel_mem has_user_id_def)
  then have f: "rel_from r = rel_from s"
    using r s by (intro nodes_index_unique[OF d]) (simp_all add: match_rel_mem)
  show "r = s" using f t r s by (intro rel_eqI) (simp_all add: match_rel_mem)
qed

lemma getUserFollowersById_rows:
  assumes "0 \<le> skip_of opts" "0 \<le> limit_of opts"
  shows "getUserFollowersById toInteger g userId opts =
           Inr (map RNode (take (nat (limit_of opts)) (drop (nat (skip_of opts))
                  (follower_rows toInteger g userId))))"
  using assms
  by (simp add: getUserFollowersById_def skip_limit_def Let_def follower_rows_def
      take_map drop_map)

lemma getUserFollowersById_negative:
  assumes "skip_of opts < 0 \<or> limit_of opts < 0"
  shows "getUserFollowersById toInteger g userId opts = Inl QueryError"
  using assms by (auto simp: getUserFollowersById_def skip_limit_def Let_def)

lemma follower_rows_length:
  "getNumFollowersById toInteger g userId = [RCount (length (follower_rows toInteger g userId))]"
  by (simp add: getNumFollowersById_def follower_rows_def)

lemma follower_rows_sorted: "sorted (map user_id (follower_rows toInteger g userId))"
  by (simp add: follower_rows_def comp_def sorted_sort_key)

lemma follower_rows_set: "set (follower_rows toInteger g userId) = followers_of toInteger g userId"
proof -
  have "set (match_rel g any_user FOLLOWS (has_user_id (toInteger userId))) =
          {r \<in> set (rels g). rel_label r = FOLLOWS
             \<and> rel_from r < length (nodes g) \<and> rel_to r < length (nodes g)
             \<and> toInteger userId = Some (user_id (nodes g ! rel_to r))}"
    by (auto simp: match_rel_def any_user_def has_user_id_def)
  then show ?thesis by (simp add: follower_rows_def followers_of_def)
qed

lemma follower_rows_distinct:
  assumes inv: "graph_inv g"
  shows "distinct (map user_id (follower_rows toInteger g userId))"
proof -
  let ?m = "match_rel g any_user FOLLOWS (has_user_id (toInteger userId))"
  let ?f = "\<lambda>r. user_id (nodes g ! rel_from r)"
  have d: "distinct ?m" using inv by (simp add: match_rel_distinct graph_inv_def)
  have "distinct (map ?f (sort_key ?f ?m))"
    using d into_key_inj[OF inv, of any_user FOLLOWS "toInteger userId"]
    by (simp add: distinct_map)
  then show ?thesis by (simp add: follower_rows_def comp_def)
qed

lemma followers_card:
  assumes inv: "graph_inv g"
  shows "card (followers_of toInteger g userId) = length (follower_rows toInteger g userId)"
proof -
  have "distinct (follower_rows toInteger g userId)"
    using follower_rows_distinct[OF inv] by (simp add: distinct_map)
  then show ?thesis unfolding follower_rows_set[symmetric] by (rule distinct_card)
qed

text \<open>
  C5. In a graph with one node per \<open>user_id\<close> and no parallel relationship, for a user
  with \<open>K\<close> followers (the count \<open>getNumFollowersById\<close> returns) and a page size \<open>P > 0\<close>:
  every call with \<open>limit = P\<close> and \<open>skip = i * P\<close> returns a page of at most \<open>P\<close> follower
  nodes in ascending \<open>user_id\<close> order; the pages \<open>0, \<dots>, n - 1\<close>, once \<open>n * P\<close> reaches \<open>K\<close>,
  hold together exactly the followers, \<open>K\<close> rows with \<open>K\<close> different \<open>user_id\<close>s in ascending
  order, and every later page is empty. With no options the call is the one with
  \<open>limit = 1000\<close> and \<open>skip = 0\<close>.
\<close>

theorem followers_pagination:
  assumes inv: "graph_inv g" and P: "0 < P"
    and K: "getNumFollowersById toInteger g userId = [RCount K]"
    and n: "K \<le> n * nat P"
  shows "\<exists>pages.
          (\<forall>i. getUserFollowersById toInteger g userId \<lparr>limit = Some P, skip = Some (int i * P)\<rparr>
                 = Inr (map RNode (pages i)))
        \<and> (\<forall>i. sorted (map user_id (pages i)) \<and> length (pages i) \<le> nat P)
        \<and> (\<forall>i. n \<le> i \<longrightarrow> pages i = [])
        \<and> set (concat (map pages [0..<n])) = followers_of toInteger g userId
        \<and> distinct (map user_id (concat (map pages [0..<n])))
        \<and> sorted (map user_id (concat (map pages [0..<n])))
        \<and> length (concat (map pages [0..<n])) = K
        \<and> card (followers_of toInteger g userId) = K
        \<and> getUserFollowersById toInteger g userId no_options
            = getUserFollowersById toInteger g userId \<lparr>limit = Some 1000, skip = Some 0\<rparr>"
proof -
  let ?all = "follower_rows toInteger g userId"
  let ?p = "nat P"
  let ?pages = "\<lambda>i. take ?p (drop (i * ?p) ?all)"
  have len: "length ?all = K" using K by (simp add: follower_rows_length)
  have whole: "concat (map ?pages [0..<n]) = ?all"
    using n len by (simp add: concat_pages)
  have call: "\<And>i. getUserFollowersById toInteger g userId \<lparr>limit = Some P, skip = Some (int i * P)\<rparr>
                 = Inr (map RNode (?pages i))"
  proof -
    fix i :: nat
    have "nat (int i * P) = i * ?p" using P by (simp add: nat_mult_distrib)
    moreover have "0 \<le> int i * P" using P by simp
    ultimately show "getUserFollowersById toInteger g userId \<lparr>limit = Some P, skip = Some (int i * P)\<rparr>
                 = Inr (map RNode (?pages i))"
      using P getUserFollowersById_rows[of "\<lparr>limit = Some P, skip = Some (int i * P)\<rparr>" toInteger g userId]
      by (simp add: skip_of_def limit_of_def)
  qed
  have srt: "\<And>i. sorted (map user_id (?pages i)) \<and> length (?pages i) \<le> ?p"
  proof -
    fix i :: nat
    have "sorted (take ?p (drop (i * ?p) (map user_id ?all)))"
      using follower_rows_sorted[of toInteger g userId]
      by (intro sorted_wrt_take sorted_wrt_drop)
    then show "sorted (map user_id (?pages i)) \<and> length (?pages i) \<le> ?p"
      by (simp add: take_map drop_map)
  qed
  have late: "\<And>i. n \<le> i \<longrightarrow> ?pages i = []"
  proof
    fix i assume "n \<le> i"
    then have "n * ?p \<le> i * ?p" by (rule mult_le_mono1)
    then have "length ?all \<le> i * ?p" using n len by linarith
    then show "?pages i = []" by simp
  qed
  have dflt: "getUserFollowersById toInteger g userId no_options
            = getUserFollowersById toInteger g userId \<lparr>limit = Some 1000, skip = Some 0\<rparr>"
    by (simp add: getUserFollowersById_def no_options_def skip_of_def limit_of_def)
  have "(\<forall>i. getUserFollowersById toInteger g userId \<lparr>limit = Some P, skip = Some (int i * P)\<rparr>
                 = Inr (map RNode (?pages i)))
        \<and> (\<forall>i. sorted (map user_id (?pages i)) \<and> length (?pages i) \<le> nat P)
        \<and> (\<forall>i. n \<le> i \<longrightarrow> ?pages i = [])
        \<and> set (concat (map ?pages [0..<n])) = followers_of toInteger g userId
        \<and> distinct (map user_id (concat (map ?pages [0..<n])))
        \<and> sorted (map user_id (concat (map ?pages [0..<n])))
        \<and> length (concat (map ?pages [0..<n])) = K
        \<and> card (followers_of toInteger g userId) = K
        \<and> getUserFollowersById toInteger g userId no_options
            = getUserFollowersById toInteger g userId \<lparr>limit = Some 1000, skip = Some 0\<rparr>"
    unfolding whole
    using call srt late follower_rows_set[of toInteger g userId] follower_rows_distinct[OF inv]
      follower_rows_sorted[of toInteger g userId] len followers_card[OF inv, of toInteger userId] dflt
    by simp
  then show ?thesis by (rule exI[of _ ?pages])
qed

theorem followers_pagination_witness:
  "graph_inv example_social \<and> (0::int) < 2
   \<and> getNumFollowersById example_toInteger example_social ''1'' = [RCount 3]
   \<and> (3::nat) \<le> 2 * nat 2
   \<and> getUserFollowersById example_toInteger example_social ''1'' \<lparr>limit = Some 2, skip = Some 0\<rparr>
       = Inr [RNode ((example_user 2)\<lparr>bio := Some ''hithere''\<rparr>),
              RNode ((example_user 3)\<lparr>bio := Some ''hithere''\<rparr>)]
   \<and> getUserFollowersById example_toInteger example_social ''1'' \<lparr>limit = Some 2, skip = Some 2\<rparr>
       = Inr [RNode ((example_user 4)\<lparr>bio := Some ''hithere''\<rparr>)]
   \<and> getUserFollowersById example_toInteger example_social ''1'' \<lparr>limit = Some 2, skip = Some 4\<rparr>
       = Inr []
   \<and> card (followers_of example_toInteger example_social ''1'') = 3"
proof -
  have h1: "graph_inv example_social" by code_simp
  have h2: "(0::int) < 2" by simp
  have h3: "getNumFollowersById example_toInteger example_social ''1'' = [RCount 3]" by code_simp
  have h4: "(3::nat) \<le> 2 * nat 2" by simp
  have p0: "getUserFollowersById example_toInteger example_social ''1'' \<lparr>limit = Some 2, skip = Some 0\<rparr>
       = Inr [RNode ((example_user 2)\<lparr>bio := Some ''hithere''\<rparr>),
              RNode ((example_user 3)\<lparr>bio := Some ''hithere''\<rparr>)]" by code_simp
  have p1: "getUserFollowersById example_toInteger example_social ''1'' \<lparr>limit = Some 2, skip = Some 2\<rparr>
       = Inr [RNode ((example_user 4)\<lparr>bio := Some ''hithere''\<rparr>)]" by code_simp
  have p2: "getUserFollowersById example_toInteger example_social ''1'' \<lparr>limit = Some 2, skip = Some 4\<rparr>
       = Inr []" by code_simp
  have c: "card (followers_of example_toInteger example_social ''1'') = 3"
    using followers_pagination[OF h1 h2 h3 h4] by blast
  show ?thesis using h1 h2 h3 h4 p0 p1 p2 c by blast
qed

text \<open>
  C8. In every graph, with \<open>skip = 0\<close> and a limit no smaller than the count
  \<open>getNumFollowersById\<close> returns, \<open>getUserFollowersById\<close> returns that many rows.
\<close>

theorem followers_count_consistent:
  assumes "getNumFollowersById toInteger g userId = [RCount K]"
    and "skip_of opts = 0" and "int K \<le> limit_of opts"
  shows "\<exists>page. getUserFollowersById toInteger g userId opts = Inr page \<and> length page = K"
proof -
  have len: "length (follower_rows toInteger g userId) = K" using assms(1) by (simp add: follower_rows_length)
  have "getUserFollowersById toInteger g userId opts =
           Inr (map RNode (take (nat (limit_of opts)) (drop (nat (skip_of opts))
                  (follower_rows toInteger g userId))))"
    using assms(2,3) by (intro getUserFollowersById_rows) simp_all
  then show ?thesis using assms(2,3) len by simp
qed

theorem followers_count_consistent_witness:
  "getNumFollowersById example_toInteger example_social ''1'' = [RCount 3]
   \<and> skip_of \<lparr>limit = Some 5, skip = None\<rparr> = 0
   \<and> int 3 \<le> limit_of \<lparr>limit = Some 5, skip = None\<rparr>
   \<and> (\<exists>page. getUserFollowersById example_toInteger example_social ''1'' \<lparr>limit = Some 5, skip = None\<rparr>
                = Inr page \<and> length page = 3)"
proof -
  have h1: "getNumFollowersById example_toInteger example_social ''1'' = [RCount 3]" by code_simp
  have h2: "skip_of \<lparr>limit = Some 5, skip = None\<rparr> = 0" by (simp add: skip_of_def)
  have h3: "int 3 \<le> limit_of \<lparr>limit = Some 5, skip = None\<rparr>" by (simp add: limit_of_def)
  show ?thesis using h1 h2 h3 followers_count_consistent[OF h1 h2 h3] by blast
qed

section \<open>The number of inviters of a user\<close>

lemma run_ops_snoc: "run_ops sanitize g (ops @ [op]) = apply_op sanitize (run_ops sanitize g ops) op"
  by (simp add: run_ops_def)

lemma invitations_append: "invitations (xs @ ys) = invitations xs @ invitations ys"
  by (induction xs rule: invitations.induct) simp_all

lemma upsertUser_rels: "rels (fst (upsertUser sanitize g p)) = rels g"
  by (cases "user_exists g (user_id p)") (simp_all add: upsertUser_present upsertUser_absent)

lemma upsertUser_nth:
  "i < length (nodes g) \<Longrightarrow> nodes (fst (upsertUser sanitize g p)) ! i = nodes g ! i"
  by (cases "user_exists g (user_id p)")
     (simp_all add: upsertUser_present upsertUser_absent nth_append)

lemma follows_rels_set:
  "set (rels (fst (upsertFollowsRelationship g a b))) =
     set (rels g) \<union> (\<lambda>(i, j). \<lparr>rel_from = i, rel_label = FOLLOWS, rel_to = j\<rparr>) `
        (set (match_user g (Some a)) \<times> set (match_user g (Some b)))"
  by (simp add: upsertFollowsRelationship_def split_beta Let_def toInteger_number_def merge_rows_set)

lemma invited_rels_set:
  "set (rels (fst (upsertInvitedByUserRelationship g a b))) =
     set (rels g) \<union> (\<lambda>(i, j). \<lparr>rel_from = j, rel_label = INVITED_BY_USER, rel_to = i\<rparr>) `
        (set (match_user g (Some a)) \<times> set (match_user g (Some b)))"
  by (auto simp: upsertInvitedByUserRelationship_def split_beta Let_def toInteger_number_def
      merge_rows_set image_iff)

lemma graph_inv_bounds:
  "graph_inv g \<Longrightarrow> r \<in> set (rels g) \<Longrightarrow> rel_from r < length (nodes g) \<and> rel_to r < length (nodes g)"
  by (simp add: graph_inv_def list_all_iff)

text \<open>Every \<open>INVITED_BY_USER\<close> relationship of a run comes from one of its calls.\<close>

lemma invited_rel_from_call:
  "r \<in> set (rels (run_ops sanitize empty_graph ops)) \<Longrightarrow> rel_label r = INVITED_BY_USER \<Longrightarrow>
     (user_id (nodes (run_ops sanitize empty_graph ops) ! rel_to r),
      user_id (nodes (run_ops sanitize empty_graph ops) ! rel_from r)) \<in> set (invitations ops)"
proof (induction ops arbitrary: r rule: rev_induct)
  case Nil
  then show ?case by (simp add: run_ops_Nil empty_graph_def)
next
  case (snoc op ops)
  let ?g = "run_ops sanitize empty_graph ops"
  have inv: "graph_inv ?g" by (rule graph_inv_run_ops[OF graph_inv_empty])
  show ?case
  proof (cases op)
    case (UpsertUser p)
    have r: "r \<in> set (rels ?g)" using snoc.prems(1) by (simp add: run_ops_snoc UpsertUser upsertUser_rels)
    have b: "rel_from r < length (nodes ?g) \<and> rel_to r < length (nodes ?g)"
      using graph_inv_bounds[OF inv r] .
    have "(user_id (nodes ?g ! rel_to r), user_id (nodes ?g ! rel_from r)) \<in> set (invitations ops)"
      using snoc.IH[OF r snoc.prems(2)] .
    then show ?thesis using b by (simp add: run_ops_snoc UpsertUser upsertUser_nth invitations_append)
  next
    case (UpsertFollows a b)
    have "r \<in> set (rels ?g)" using snoc.prems
      by (auto simp: run_ops_snoc UpsertFollows follows_rels_set)
    then have "(user_id (nodes ?g ! rel_to r), user_id (nodes ?g ! rel_from r)) \<in> set (invitations ops)"
      using snoc.IH snoc.prems(2) by blast
    then show ?thesis by (simp add: run_ops_snoc UpsertFollows nodes_follows invitations_append)
  next
    case (UpsertInvitedByUser a b)
    have n: "nodes (run_ops sanitize empty_graph (ops @ [op])) = nodes ?g"
      by (simp add: run_ops_snoc UpsertInvitedByUser nodes_invited)
    have i: "invitations (ops @ [op]) = invitations ops @ [(a, b)]"
      by (simp add: invitations_append UpsertInvitedByUser)
    have "r \<in> set (rels ?g) \<or>
          (rel_to r \<in> set (match_user ?g (Some a)) \<and> rel_from r \<in> set (match_user ?g (Some b)))"
      using snoc.prems(1) by (auto simp: run_ops_snoc UpsertInvitedByUser invited_rels_set)
    then show ?thesis
    proof
      assume "r \<in> set (rels ?g)"
      then show ?thesis using snoc.IH snoc.prems(2) by (simp add: n i)
    next
      assume "rel_to r \<in> set (match_user ?g (Some a)) \<and> rel_from r \<in> set (match_user ?g (Some b))"
      then show ?thesis by (simp add: n i match_user_mem)
    qed
  qed
qed

lemma one_inviter_eachD:
  "one_inviter_each ops \<Longrightarrow> (a, u) \<in> set (invitations ops) \<Longrightarrow> (a', u) \<in> set (invitations ops)
     \<Longrightarrow> a = a'"
  unfolding one_inviter_each_def list_all_iff by blast

text \<open>
  C6, as the code has it. After a run of writes from the empty graph in which all
  \<open>upsertInvitedByUserRelationship\<close> calls for one invited user name the same inviter,
  \<open>getNumInvitesForUserById\<close> returns 0 or 1 for every user id.
\<close>

theorem invites_at_most_one:
  assumes conv: "one_inviter_each ops"
  shows "\<exists>c. getNumInvitesForUserById toInteger (run_ops sanitize empty_graph ops) userId = [RCount c]
              \<and> c \<le> 1"
proof -
  let ?g = "run_ops sanitize empty_graph ops"
  let ?m = "match_rel ?g (has_user_id (toInteger userId)) INVITED_BY_USER any_user"
  have inv: "graph_inv ?g" by (rule graph_inv_run_ops[OF graph_inv_empty])
  have d: "distinct ?m" using inv by (simp add: match_rel_distinct graph_inv_def)
  have same: "\<And>r s. r \<in> set ?m \<Longrightarrow> s \<in> set ?m \<Longrightarrow> r = s"
  proof -
    fix r s assume r: "r \<in> set ?m" and s: "s \<in> set ?m"
    have kr: "toInteger userId = Some (user_id (nodes ?g ! rel_from r))"
      using r by (simp add: match_rel_mem has_user_id_def)
    have ks: "toInteger userId = Some (user_id (nodes ?g ! rel_from s))"
      using s by (simp add: match_rel_mem has_user_id_def)
    have cr: "(user_id (nodes ?g ! rel_to r), user_id (nodes ?g ! rel_from r)) \<in> set (invitations ops)"
      using r by (intro invited_rel_from_call) (simp_all add: match_rel_mem)
    have cs: "(user_id (nodes ?g ! rel_to s), user_id (nodes ?g ! rel_from r)) \<in> set (invitations ops)"
      using s kr ks invited_rel_from_call[of s sanitize ops] by (simp add: match_rel_mem)
    have "user_id (nodes ?g ! rel_to r) = user_id (nodes ?g ! rel_to s)"
      using one_inviter_eachD[OF conv cr cs] .
    then show "r = s"
      using outof_key_inj[OF inv, of "toInteger userId" INVITED_BY_USER any_user] r s
      by (simp add: inj_on_def)
  qed
  have "length ?m \<le> 1" using d same by (rule distinct_all_equal)
  then show ?thesis by (simp add: getNumInvitesForUserById_def)
qed

theorem invites_at_most_one_witness:
  "one_inviter_each example_social_ops
   \<and> getNumInvitesForUserById example_toInteger
        (run_ops example_sanitize empty_graph example_social_ops) ''2'' = [RCount 1]
   \<and> getNumInvitesForUserById example_toInteger
        (run_ops example_sanitize empty_graph example_social_ops) ''1'' = [RCount 0]
   \<and> (\<exists>c. getNumInvitesForUserById example_toInteger
        (run_ops example_sanitize empty_graph example_social_ops) ''3'' = [RCount c] \<and> c \<le> 1)"
proof -
  have h: "one_inviter_each example_social_ops" by code_simp
  have a: "getNumInvitesForUserById example_toInteger
        (run_ops example_sanitize empty_graph example_social_ops) ''2'' = [RCount 1]" by code_simp
  have b: "getNumInvitesForUserById example_toInteger
        (run_ops example_sanitize empty_graph example_social_ops) ''1'' = [RCount 0]" by code_simp
  show ?thesis
    using h a b invites_at_most_one[OF h, of example_toInteger example_sanitize "''3''"] by blast
qed

text \<open>
  Without the convention the count is not bounded by 1: the layer lets two calls name two
  inviters for one user, and then the count is 2.
\<close>

theorem invites_two_counterexample:
  "getNumInvitesForUserById example_toInteger
     (run_ops example_sanitize empty_graph two_inviters_ops) ''3'' = [RCount 2]
   \<and> getNumInvitesForUserById example_toInteger
     (run_ops example_sanitize empty_graph two_inviters_ops) ''3'' \<noteq> [RCount 0]
   \<and> getNumInvitesForUserById example_toInteger
     (run_ops example_sanitize empty_graph two_inviters_ops) ''3'' \<noteq> [RCount 1]"
  by code_simp

section \<open>The number of users a user invited\<close>

lemma in_degree_match:
  "in_degree g t k = length (match_rel g any_user t (has_user_id (Some k)))"
  unfolding in_degree_def match_rel_def has_user_id_def any_user_def
  by (rule arg_cong[where f = length], rule filter_cong) auto

lemma match_rel_null_key: "match_rel g P t (has_user_id None) = []"
  by (simp add: match_rel_def has_user_id_def)

lemma getNumUsersInvitedById_in_degree:
  "getNumUsersInvitedById toInteger g userId =
     [RCount (case toInteger userId of None \<Rightarrow> 0 | Some k \<Rightarrow> in_degree g INVITED_BY_USER k)]"
  by (cases "toInteger userId")
     (simp_all add: getNumUsersInvitedById_def match_rel_null_key in_degree_match)

lemma invited_by_card:
  assumes inv: "graph_inv g"
  shows "in_degree g INVITED_BY_USER k = card (invited_by g k)"
proof -
  let ?m = "match_rel g any_user INVITED_BY_USER (has_user_id (Some k))"
  let ?h = "\<lambda>r. nodes g ! rel_from r"
  have "set ?m = {r \<in> set (rels g). rel_label r = INVITED_BY_USER
          \<and> rel_from r < length (nodes g) \<and> rel_to r < length (nodes g)
          \<and> user_id (nodes g ! rel_to r) = k}"
    by (auto simp: match_rel_def has_user_id_def any_user_def)
  then have s: "invited_by g k = ?h ` set ?m" by (simp add: invited_by_def)
  have d: "distinct ?m" using inv by (simp add: match_rel_distinct graph_inv_def)
  have "inj_on (\<lambda>r. user_id (?h r)) (set ?m)" using into_key_inj[OF inv] .
  then have "inj_on ?h (set ?m)" by (auto simp: inj_on_def)
  then have "card (?h ` set ?m) = card (set ?m)" by (rule card_image)
  then show ?thesis using d by (simp add: in_degree_match s distinct_card)
qed

text \<open>
  C7, as the code has it. \<open>getNumUsersInvitedById\<close> returns the number of
  \<open>INVITED_BY_USER\<close> relationships that enter a node with the given id: the relationship
  leads from the invited user to the inviter, so at the inviter it is the incoming count.
  An id the parser reads as \<open>null\<close> counts 0. In a graph with one node per \<open>user_id\<close> and
  no parallel relationship that number is the number of users whose inviter has the id.
\<close>

theorem getNumUsersInvitedById_incoming:
  "getNumUsersInvitedById toInteger g userId =
     [RCount (case toInteger userId of None \<Rightarrow> 0 | Some k \<Rightarrow> in_degree g INVITED_BY_USER k)]
   \<and> (graph_inv g \<longrightarrow> in_degree g INVITED_BY_USER k = card (invited_by g k))"
  using getNumUsersInvitedById_in_degree[of toInteger g userId] invited_by_card[of g k] by blast

theorem getNumUsersInvitedById_incoming_witness:
  "graph_inv example_social
   \<and> getNumUsersInvitedById example_toInteger example_social ''1'' = [RCount 2]
   \<and> in_degree example_social INVITED_BY_USER 1 = 2
   \<and> card (invited_by example_social 1) = 2"
proof -
  have h: "graph_inv example_social" by code_simp
  have i: "in_degree example_social INVITED_BY_USER 1 = 2" by code_simp
  have t: "example_toInteger ''1'' = Some 1" by code_simp
  show ?thesis
    using h i t getNumUsersInvitedById_incoming[of example_toInteger example_social "''1''" 1]
    by simp
qed

text \<open>
  The count is not the outgoing one: user 1 invited users 2 and 3, the operation returns
  2, and no \<open>INVITED_BY_USER\<close> relationship leaves the node of user 1.
\<close>

theorem getNumUsersInvitedById_outgoing_counterexample:
  "getNumUsersInvitedById example_toInteger example_social ''1'' = [RCount 2]
   \<and> out_degree example_social INVITED_BY_USER 1 = 0
   \<and> getNumUsersInvitedById example_toInteger example_social ''1''
       \<noteq> [RCount (out_degree example_social INVITED_BY_USER 1)]"
  by code_simp

section \<open>Where the pagination bounds go\<close>

lemma join_lines_holes:
  "join_lines [l0, l1, l2, l3, a @ x, b @ y, l6] =
     join_lines [l0, l1, l2, l3, a] @ x @ (CHR 0x0A # b) @ y @ (CHR 0x0A # l6)"
  by simp

text \<open>
  C9. The text of each list query is a fixed template with two holes, into which the
  text of \<open>skip\<close> and the text of \<open>limit\<close> are spliced as they are, for every value and
  every way of writing a number as text; the parameter object holds \<open>userId\<close> and nothing
  else. No value is refused: with \<open>skip = -1\<close> and \<open>limit = -5\<close> the query is issued with
  \<open>SKIP -1\<close> and \<open>LIMIT -5\<close> in its text.
\<close>

theorem pagination_bounds_interpolated:
  "(\<exists>before between after. \<forall>str userId opts.
      query_text (getUserFollowersById_query str userId opts)
        = before @ str (skip_of opts) @ between @ str (limit_of opts) @ after)
   \<and> (\<exists>before between after. \<forall>str userId opts.
      query_text (getFollowingUsersById_query str userId opts)
        = before @ str (skip_of opts) @ between @ str (limit_of opts) @ after)
   \<and> (\<exists>before between after. \<forall>str userId opts.
      query_text (getUsersInvitedById_query str userId opts)
        = before @ str (skip_of opts) @ between @ str (limit_of opts) @ after)
   \<and> (\<forall>str userId opts.
        query_params (getUserFollowersById_query str userId opts) = [(''userId'', PString userId)]
      \<and> query_params (getFollowingUsersById_query str userId opts) = [(''userId'', PString userId)]
      \<and> query_params (getUsersInvitedById_query str userId opts) = [(''userId'', PString userId)])
   \<and> getUserFollowersById_query decimal ''7'' \<lparr>limit = Some (- 5), skip = Some (- 1)\<rparr>
        = \<lparr> query_text = join_lines
              ['''',
               ''      MATCH (follower:User)-[op:FOLLOWS]->(u:User { user_id: toInteger($userId) })'',
               ''      RETURN follower'',
               ''      ORDER BY follower.user_id'',
               ''      SKIP -1'',
               ''      LIMIT -5'',
               ''    ''],
            query_params = [(''userId'', PString ''7'')] \<rparr>"
proof -
  have a: "\<exists>before between after. \<forall>str userId opts.
      query_text (getUserFollowersById_query str userId opts)
        = before @ str (skip_of opts) @ between @ str (limit_of opts) @ after"
    unfolding getUserFollowersById_query_def query.simps join_lines_holes by blast
  have b: "\<exists>before between after. \<forall>str userId opts.
      query_text (getFollowingUsersById_query str userId opts)
        = before @ str (skip_of opts) @ between @ str (limit_of opts) @ after"
    unfolding getFollowingUsersById_query_def query.simps join_lines_holes by blast
  have c: "\<exists>before between after. \<forall>str userId opts.
      query_text (getUsersInvitedById_query str userId opts)
        = before @ str (skip_of opts) @ between @ str (limit_of opts) @ after"
    unfolding getUsersInvitedById_query_def query.simps join_lines_holes by blast
  have d: "\<forall>str userId opts.
        query_params (getUserFollowersById_query str userId opts) = [(''userId'', PString userId)]
      \<and> query_params (getFollowingUsersById_query str userId opts) = [(''userId'', PString userId)]
      \<and> query_params (getUsersInvitedById_query str userId opts) = [(''userId'', PString userId)]"
    by (simp add: getUserFollowersById_query_def getFollowingUsersById_query_def
        getUsersInvitedById_query_def)
  have e: "getUserFollowersById_query decimal ''7'' \<lparr>limit = Some (- 5), skip = Some (- 1)\<rparr>
        = \<lparr> query_text = join_lines
              ['''',
               ''      MATCH (follower:User)-[op:FOLLOWS]->(u:User { user_id: toInteger($userId) })'',
               ''      RETURN follower'',
               ''      ORDER BY follower.user_id'',
               ''      SKIP -1'',
               ''      LIMIT -5'',
               ''    ''],
            query_params = [(''userId'', PString ''7'')] \<rparr>"
    by code_simp
  show ?thesis using a b c d e by blast
qed

section \<open>What the cursor of a node upsert tells\<close>

lemma upsertUser_text_no_return: "\<not> sublist ''RETURN'' upsertUser_text"
  by code_simp

lemma upsertUser_cursor: "snd (upsertUser sanitize g user) = []"
  by (cases "user_exists g (user_id user)") (simp_all add: upsertUser_present upsertUser_absent)

lemma edge_texts_return:
  "sublist ''RETURN op'' (query_text (upsertFollowsRelationship_query a b))
   \<and> sublist ''RETURN op'' (query_text (upsertInvitedByUserRelationship_query a b))"
proof -
  have f: "query_text (upsertFollowsRelationship_query a b)
             = query_text (upsertFollowsRelationship_query 0 0)"
    by (simp add: upsertFollowsRelationship_query_def)
  have v: "query_text (upsertInvitedByUserRelationship_query a b)
             = query_text (upsertInvitedByUserRelationship_query 0 0)"
    by (simp add: upsertInvitedByUserRelationship_query_def)
  have "sublist ''RETURN op'' (query_text (upsertFollowsRelationship_query 0 0))" by code_simp
  moreover have "sublist ''RETURN op'' (query_text (upsertInvitedByUserRelationship_query 0 0))"
    by code_simp
  ultimately show ?thesis by (simp add: f v)
qed

text \<open>
  C10. The text \<open>upsertUser\<close> issues has no \<open>RETURN\<close>, and its cursor has no rows whether
  the node was created or was there already, so the rows do not tell the two apart. The
  edge upserts do return (\<open>RETURN op\<close>): their cursor has a row exactly when both
  endpoints exist.
\<close>

theorem upsertUser_cursor_empty:
  "\<not> sublist ''RETURN'' (query_text (upsertUser_query sanitize user))
   \<and> snd (upsertUser sanitize g user) = []
   \<and> (\<not> user_exists g (user_id user) \<longrightarrow>
        nodes (fst (upsertUser sanitize g user)) = nodes g @ [user\<lparr>bio := sanitize (bio user)\<rparr>])
   \<and> (user_exists g (user_id user) \<longrightarrow> fst (upsertUser sanitize g user) = g)
   \<and> sublist ''RETURN op'' (query_text (upsertFollowsRelationship_query a b))
   \<and> sublist ''RETURN op'' (query_text (upsertInvitedByUserRelationship_query a b))
   \<and> (snd (upsertFollowsRelationship g a b) \<noteq> []) = (user_exists g a \<and> user_exists g b)
   \<and> (snd (upsertInvitedByUserRelationship g a b) \<noteq> []) = (user_exists g a \<and> user_exists g b)"
proof -
  have t: "\<not> sublist ''RETURN'' (query_text (upsertUser_query sanitize user))"
    using upsertUser_text_no_return by (simp add: upsertUser_query_def)
  show ?thesis
    using t upsertUser_cursor[of sanitize g user] edge_texts_return[of a b]
      follows_cursor_empty[of g a b] invited_cursor_empty[of g a b]
    by (simp add: upsertUser_present upsertUser_absent)
qed

theorem upsertUser_cursor_empty_witness:
  "\<not> user_exists example_graph 4
   \<and> upsertUser example_sanitize example_graph (example_user 4)
       = (example_graph\<lparr>nodes := nodes example_graph @ [(example_user 4)\<lparr>bio := Some ''hithere''\<rparr>]\<rparr>, [])
   \<and> user_exists example_graph 1
   \<and> upsertUser example_sanitize example_graph (example_user 1) = (example_graph, [])
   \<and> snd (upsertFollowsRelationship example_graph 1 2)
       = [RRel \<lparr>rel_from = 0, rel_label = FOLLOWS, rel_to = 1\<rparr>]
   \<and> snd (upsertFollowsRelationship example_graph 1 4) = []"
proof -
  have h4: "\<not> user_exists example_graph (user_id (example_user 4))" by code_simp
  have h1: "user_exists example_graph (user_id (example_user 1))" by code_simp
  have i4: "user_id (example_user 4) = 4" and i1: "user_id (example_user 1) = 1"
    by (simp_all add: example_user_def)
  have b: "example_sanitize (bio (example_user 4)) = Some ''hithere''" by code_simp
  note t4 = upsertUser_cursor_empty[of example_sanitize "example_user 4" example_graph 1 4]
  note t1 = upsertUser_cursor_empty[of example_sanitize "example_user 1" example_graph 1 2]
  have s4: "snd (upsertUser example_sanitize example_graph (example_user 4)) = []" using t4 by blast
  have n4: "nodes (fst (upsertUser example_sanitize example_graph (example_user 4)))
              = nodes example_graph @ [(example_user 4)\<lparr>bio := Some ''hithere''\<rparr>]"
    using t4 h4 b by simp
  have r4: "rels (fst (upsertUser example_sanitize example_graph (example_user 4))) = rels example_graph"
    by (rule upsertUser_rels)
  have u4: "upsertUser example_sanitize example_graph (example_user 4)
       = (example_graph\<lparr>nodes := nodes example_graph @ [(example_user 4)\<lparr>bio := Some ''hithere''\<rparr>]\<rparr>, [])"
    using s4 n4 r4 by (cases "upsertUser example_sanitize example_graph (example_user 4)") simp
  have u1: "upsertUser example_sanitize example_graph (example_user 1) = (example_graph, [])"
    using t1 h1 by (cases "upsertUser example_sanitize example_graph (example_user 1)") simp
  have f12: "snd (upsertFollowsRelationship example_graph 1 2)
       = [RRel \<lparr>rel_from = 0, rel_label = FOLLOWS, rel_to = 1\<rparr>]" by code_simp
  have f14: "snd (upsertFollowsRelationship example_graph 1 4) = []"
    using t4 h4 i4 by simp
  show ?thesis using h4 h1 i4 i1 u4 u1 f12 f14 by simp
qed

end
